theory Spec2Isabelle
  imports Complex_Main "HOL-Library.Product_Lexorder"
begin

section \<open>Conventions of the embedding\<close>

text \<open>
  The repository holds two implementations of the same four-seat all-in-or-fold game: the
  namespaced one (\<^verbatim>\<open>aof::GameState\<close>, \<^verbatim>\<open>aof::PokerEvaluator\<close>, \<^verbatim>\<open>mccfr::Node\<close>, under
  \<^verbatim>\<open>src/src\<close> and \<^verbatim>\<open>src/include\<close>) and the older single file \<^verbatim>\<open>src/aof/aof.cpp\<close>
  (\<^verbatim>\<open>AoFState\<close>, \<^verbatim>\<open>AoFGame\<close>). The namespaced implementation is the one embedded below,
  function by function; the older file is not embedded.

  A C++ \<^verbatim>\<open>double\<close> is modelled by a real number: chip
  amounts, regrets and probabilities are computed exactly, so rounding, overflow and NaN are
  outside the model. An exception is a value \<open>Inl e\<close> of a sum type; \<open>Inr\<close> carries the normal
  result. A member function that mutates its object takes the object and returns the new one.
\<close>

datatype error =
  invalid_argument string
| runtime_error string
| length_error string

section \<open>The regret-matching node (\<^verbatim>\<open>src/src/mccfr/node.cpp\<close>)\<close>

text \<open>
  \<^verbatim>\<open>std::vector<double>(n, v)\<close> as the member initialisers of \<^verbatim>\<open>Node::Node(int)\<close> call it:
  the \<^verbatim>\<open>int\<close> argument is converted to the unsigned 64-bit \<^verbatim>\<open>size_type\<close> (so a negative
  count wraps around to a huge one), and a count above \<^verbatim>\<open>max_size()\<close> makes the constructor
  throw \<^verbatim>\<open>std::length_error\<close> (older standard libraries throw \<^verbatim>\<open>std::bad_alloc\<close> from the
  allocator instead; in neither case does the constructor return).
\<close>

definition vector_max_size :: nat where
  "vector_max_size = (2 ^ 63 - 1) div 8"

definition to_size_type :: "int \<Rightarrow> nat" where
  "to_size_type n = nat (n mod 2 ^ 64)"

definition vector_fill_ctor :: "int \<Rightarrow> real \<Rightarrow> error + real list" where
  "vector_fill_ctor n v =
     (if to_size_type n > vector_max_size
      then Inl (length_error ''cannot create std::vector larger than max_size()'')
      else Inr (replicate (to_size_type n) v))"

record Node =
  regretSum :: "real list"
  strategy :: "real list"
  strategySum :: "real list"
  visitCount :: nat

text \<open>
  \<^verbatim>\<open>Node::Node(int numActions)\<close>: the three vectors are built first, in declaration order, by
  the member initialiser list; only then does the constructor body test \<^verbatim>\<open>numActions <= 0\<close>.
\<close>

definition Node_ctor :: "int \<Rightarrow> error + Node" where
  "Node_ctor numActions =
     (case vector_fill_ctor numActions 0 of
        Inl e \<Rightarrow> Inl e
      | Inr rs \<Rightarrow>
     (case vector_fill_ctor numActions 0 of
        Inl e \<Rightarrow> Inl e
      | Inr st \<Rightarrow>
     (case vector_fill_ctor numActions 0 of
        Inl e \<Rightarrow> Inl e
      | Inr ss \<Rightarrow>
        if numActions \<le> 0
        then Inl (invalid_argument ''Number of actions must be positive'')
        else Inr \<lparr>regretSum = rs, strategy = st, strategySum = ss, visitCount = 0\<rparr>)))"

text \<open>\<^verbatim>\<open>Node::Node() : Node(3)\<close>, the constructor \<^verbatim>\<open>nodeMap_[key]\<close> runs for an unseen key.\<close>

definition Node_default :: "error + Node" where
  "Node_default = Node_ctor 3"

text \<open>
  \<^verbatim>\<open>Node::normalizeStrategy\<close>. The three vectors of a node have the same size from the
  constructor on and are never resized, so the first loop (over the indices of \<^verbatim>\<open>regretSum_\<close>,
  writing \<^verbatim>\<open>strategy_[i]\<close>) is a map over \<^verbatim>\<open>regretSum_\<close>; \<^verbatim>\<open>normalizingSum\<close> is the sum of what
  it wrote. \<^verbatim>\<open>regretSum_\<close> itself is only read.
\<close>

definition clipped :: "real list \<Rightarrow> real list" where
  "clipped rs = map (\<lambda>r. max r 0) rs"

definition normalizeStrategy :: "Node \<Rightarrow> Node" where
  "normalizeStrategy n =
     (let st = clipped (regretSum n);
          normalizingSum = sum_list st
      in if normalizingSum > 0
         then n\<lparr>strategy := map (\<lambda>x. x / normalizingSum) st\<rparr>
         else n\<lparr>strategy := replicate (length st) (1 / real (length st))\<rparr>)"

text \<open>\<^verbatim>\<open>Node::getStrategy(realizationWeight)\<close>: the node after the call and the returned vector.\<close>

definition getStrategy :: "Node \<Rightarrow> real \<Rightarrow> Node \<times> real list" where
  "getStrategy n realizationWeight =
     (let n1 = n\<lparr>visitCount := visitCount n + 1\<rparr>;
          n2 = normalizeStrategy n1;
          n3 = n2\<lparr>strategySum :=
                 map (\<lambda>(s, p). s + realizationWeight * p) (zip (strategySum n2) (strategy n2))\<rparr>
      in (n3, strategy n3))"

definition getAverageStrategy :: "Node \<Rightarrow> real list" where
  "getAverageStrategy n =
     (let total = sum_list (strategySum n)
      in if total > 0
         then map (\<lambda>s. s / total) (strategySum n)
         else replicate (length (strategySum n)) (1 / real (length (strategySum n))))"

definition updateRegret :: "Node \<Rightarrow> int \<Rightarrow> real \<Rightarrow> error + Node" where
  "updateRegret n action regret =
     (if action < 0 \<or> action \<ge> int (length (regretSum n))
      then Inl (invalid_argument ''Invalid action index'')
      else Inr (n\<lparr>regretSum := (regretSum n)[nat action := regretSum n ! nat action + regret]\<rparr>))"

text \<open>
  A history of calls on one node. A call of \<^verbatim>\<open>updateRegret\<close> that throws leaves the node as
  it was (the exception is raised before the write), and the history goes on.
\<close>

datatype node_call = GetStrategy real | UpdateRegret int real

fun node_step :: "Node \<Rightarrow> node_call \<Rightarrow> Node" where
  "node_step n (GetStrategy w) = fst (getStrategy n w)"
| "node_step n (UpdateRegret a r) = (case updateRegret n a r of Inl e \<Rightarrow> n | Inr n' \<Rightarrow> n')"

definition node_run :: "Node \<Rightarrow> node_call list \<Rightarrow> Node" where
  "node_run n cs = foldl node_step n cs"

fun nonneg_weight :: "node_call \<Rightarrow> bool" where
  "nonneg_weight (GetStrategy w) = (0 \<le> w)"
| "nonneg_weight (UpdateRegret a r) = True"

text \<open>A probability distribution: every entry in \<open>[0, 1]\<close>, the entries summing to one.\<close>

definition is_distribution :: "real list \<Rightarrow> bool" where
  "is_distribution ps = (list_all (\<lambda>p. 0 \<le> p \<and> p \<le> 1) ps \<and> sum_list ps = 1)"

definition same_sizes :: "Node \<Rightarrow> bool" where
  "same_sizes n =
     (0 < length (regretSum n) \<and> length (strategy n) = length (regretSum n)
      \<and> length (strategySum n) = length (regretSum n))"

subsection \<open>Facts about the node\<close>

lemma sum_list_map_div: "sum_list (map (\<lambda>x. x / c) xs) = sum_list xs / (c::real)"
  by (induction xs) (simp_all add: add_divide_distrib)

lemma member_le_sum_list_real:
  "\<forall>x\<in>set xs. (0::real) \<le> x \<Longrightarrow> y \<in> set xs \<Longrightarrow> y \<le> sum_list xs"
proof (induction xs)
  case Nil
  then show ?case by simp
next
  case (Cons a xs)
  have nn: "0 \<le> sum_list xs" using Cons.prems(1) by (simp add: sum_list_nonneg)
  show ?case
  proof (cases "y = a")
    case True
    then show ?thesis using nn by simp
  next
    case False
    then have "y \<le> sum_list xs" using Cons by simp
    moreover have "0 \<le> a" using Cons.prems(1) by simp
    ultimately show ?thesis by simp
  qed
qed

lemma scaled_is_distribution:
  assumes nn: "\<forall>x\<in>set xs. (0::real) \<le> x" and pos: "0 < sum_list xs"
  shows "is_distribution (map (\<lambda>x. x / sum_list xs) xs)"
proof -
  have "\<forall>x\<in>set xs. 0 \<le> x / sum_list xs \<and> x / sum_list xs \<le> 1"
    using nn pos member_le_sum_list_real [OF nn] by (simp add: divide_le_eq)
  moreover have "sum_list (map (\<lambda>x. x / sum_list xs) xs) = 1"
    using pos by (simp add: sum_list_map_div)
  ultimately show ?thesis
    by (simp add: is_distribution_def list_all_iff)
qed

lemma uniform_is_distribution:
  assumes "0 < k"
  shows "is_distribution (replicate k (1 / real k))"
  using assms by (simp add: is_distribution_def list_all_iff sum_list_replicate)

lemma clipped_nonneg: "\<forall>x\<in>set (clipped rs). 0 \<le> x"
  by (simp add: clipped_def)

lemma length_clipped [simp]: "length (clipped rs) = length rs"
  by (simp add: clipped_def)

lemma normalizeStrategy_distribution:
  assumes "0 < length (regretSum n)"
  shows "is_distribution (strategy (normalizeStrategy n))"
proof (cases "0 < sum_list (clipped (regretSum n))")
  case True
  then show ?thesis
    using scaled_is_distribution [OF clipped_nonneg True]
    by (simp add: normalizeStrategy_def Let_def)
next
  case False
  then show ?thesis
    using uniform_is_distribution [OF assms]
    by (simp add: normalizeStrategy_def Let_def)
qed

lemma normalizeStrategy_frame:
  "regretSum (normalizeStrategy n) = regretSum n"
  "strategySum (normalizeStrategy n) = strategySum n"
  "visitCount (normalizeStrategy n) = visitCount n"
  "length (strategy (normalizeStrategy n)) = length (regretSum n)"
  by (simp_all add: normalizeStrategy_def Let_def)

lemma getStrategy_fields:
  "regretSum (fst (getStrategy n w)) = regretSum n"
  "strategy (fst (getStrategy n w)) = strategy (normalizeStrategy n)"
  "snd (getStrategy n w) = strategy (normalizeStrategy n)"
  "visitCount (fst (getStrategy n w)) = visitCount n + 1"
  "strategySum (fst (getStrategy n w)) =
     map (\<lambda>(s, p). s + w * p) (zip (strategySum n) (strategy (normalizeStrategy n)))"
  by (simp_all add: getStrategy_def Let_def normalizeStrategy_def)

lemma getStrategy_distribution:
  "0 < length (regretSum n) \<Longrightarrow> is_distribution (snd (getStrategy n w))"
  by (simp add: getStrategy_fields normalizeStrategy_distribution)

lemma is_distribution_nonneg: "is_distribution ps \<Longrightarrow> p \<in> set ps \<Longrightarrow> 0 \<le> p"
  by (simp add: is_distribution_def list_all_iff)

lemma same_sizes_step: "same_sizes n \<Longrightarrow> same_sizes (node_step n c)"
proof (cases c)
  case (GetStrategy w)
  assume "same_sizes n"
  then show ?thesis using GetStrategy
    by (simp add: same_sizes_def getStrategy_fields normalizeStrategy_frame)
next
  case (UpdateRegret a r)
  assume "same_sizes n"
  then show ?thesis using UpdateRegret
    by (simp add: same_sizes_def updateRegret_def)
qed

lemma same_sizes_run: "same_sizes n \<Longrightarrow> same_sizes (node_run n cs)"
  unfolding node_run_def
  by (induction cs arbitrary: n) (simp_all add: same_sizes_step)

lemma to_size_type_pos: "0 \<le> k \<Longrightarrow> k < 2 ^ 31 \<Longrightarrow> to_size_type k = nat k"
  by (simp add: to_size_type_def)

lemma vector_fill_ctor_small:
  "0 \<le> k \<Longrightarrow> k < 2 ^ 31 \<Longrightarrow> vector_fill_ctor k v = Inr (replicate (nat k) v)"
  by (simp add: vector_fill_ctor_def to_size_type_pos vector_max_size_def)

lemma Node_ctor_pos:
  assumes "0 < k" "k < 2 ^ 31"
  shows "Node_ctor k = Inr \<lparr>regretSum = replicate (nat k) 0, strategy = replicate (nat k) 0,
            strategySum = replicate (nat k) 0, visitCount = 0\<rparr>"
  using assms by (simp add: Node_ctor_def vector_fill_ctor_small)

lemma to_size_type_neg: "- (2 ^ 31) \<le> k \<Longrightarrow> k < 0 \<Longrightarrow> to_size_type k = nat (2 ^ 64 + k)"
proof -
  assume a: "- (2 ^ 31) \<le> k" "k < 0"
  have "k mod 2 ^ 64 = (k + 2 ^ 64) mod 2 ^ 64" by simp
  also have "\<dots> = k + 2 ^ 64" using a by (intro mod_pos_pos_trivial) simp_all
  finally show ?thesis by (simp add: to_size_type_def add.commute)
qed

lemma Node_ctor_neg:
  assumes "- (2 ^ 31) \<le> k" "k < 0"
  shows "Node_ctor k = Inl (length_error ''cannot create std::vector larger than max_size()'')"
  using assms by (simp add: Node_ctor_def vector_fill_ctor_def to_size_type_neg vector_max_size_def)

lemma Node_ctor_zero: "Node_ctor 0 = Inl (invalid_argument ''Number of actions must be positive'')"
  by (simp add: Node_ctor_def vector_fill_ctor_def to_size_type_def vector_max_size_def)

lemma strategySum_nonneg_step:
  assumes ok: "same_sizes n" and nn: "\<forall>x\<in>set (strategySum n). 0 \<le> x" and w: "nonneg_weight c"
  shows "\<forall>x\<in>set (strategySum (node_step n c)). 0 \<le> x"
proof (cases c)
  case (GetStrategy w')
  have d: "is_distribution (strategy (normalizeStrategy n))"
    using ok by (simp add: same_sizes_def normalizeStrategy_distribution)
  have w0: "0 \<le> w'" using w GetStrategy by simp
  have "0 \<le> s + w' * p"
    if "(s, p) \<in> set (zip (strategySum n) (strategy (normalizeStrategy n)))" for s p
  proof -
    have "0 \<le> s" using that nn by (auto dest: set_zip_leftD)
    moreover have "0 \<le> p" using that is_distribution_nonneg [OF d] by (auto dest: set_zip_rightD)
    ultimately show ?thesis using w0 by simp
  qed
  then show ?thesis using GetStrategy
    by (auto simp: getStrategy_fields)
next
  case (UpdateRegret a r)
  then show ?thesis using nn by (simp add: updateRegret_def)
qed

lemma strategySum_nonneg_run:
  assumes "same_sizes n" "\<forall>x\<in>set (strategySum n). 0 \<le> x" "list_all nonneg_weight cs"
  shows "\<forall>x\<in>set (strategySum (node_run n cs)). 0 \<le> x"
  using assms unfolding node_run_def
proof (induction cs arbitrary: n)
  case Nil
  then show ?case by simp
next
  case (Cons c cs)
  have "same_sizes (node_step n c)" using Cons.prems(1) by (rule same_sizes_step)
  moreover have "\<forall>x\<in>set (strategySum (node_step n c)). 0 \<le> x"
    using Cons.prems by (intro strategySum_nonneg_step) simp_all
  ultimately show ?case using Cons.IH Cons.prems(3) by simp
qed

lemma getAverageStrategy_distribution:
  assumes len: "0 < length (strategySum n)" and nn: "\<forall>x\<in>set (strategySum n). 0 \<le> x"
  shows "is_distribution (getAverageStrategy n)"
proof (cases "0 < sum_list (strategySum n)")
  case True
  then show ?thesis using scaled_is_distribution [OF nn True]
    by (simp add: getAverageStrategy_def Let_def)
next
  case False
  then show ?thesis using uniform_is_distribution [OF len]
    by (simp add: getAverageStrategy_def Let_def)
qed


lemma strategy_nonneg_step:
  assumes "same_sizes n" "\<forall>x\<in>set (strategy n). 0 \<le> x"
  shows "\<forall>x\<in>set (strategy (node_step n c)). 0 \<le> x"
proof (cases c)
  case (GetStrategy w)
  have "is_distribution (strategy (normalizeStrategy n))"
    using assms(1) by (simp add: same_sizes_def normalizeStrategy_distribution)
  then show ?thesis using GetStrategy
    by (auto simp: getStrategy_fields dest: is_distribution_nonneg)
next
  case (UpdateRegret a r)
  then show ?thesis using assms(2) by (simp add: updateRegret_def)
qed

lemma strategy_nonneg_run:
  assumes "same_sizes n" "\<forall>x\<in>set (strategy n). 0 \<le> x"
  shows "\<forall>x\<in>set (strategy (node_run n cs)). 0 \<le> x"
  using assms unfolding node_run_def
proof (induction cs arbitrary: n)
  case Nil
  then show ?case by simp
next
  case (Cons c cs)
  have "same_sizes (node_step n c)" using Cons.prems(1) by (rule same_sizes_step)
  moreover have "\<forall>x\<in>set (strategy (node_step n c)). 0 \<le> x"
    using Cons.prems by (rule strategy_nonneg_step)
  ultimately show ?case using Cons.IH by simp
qed

text \<open>A C++ \<^verbatim>\<open>int\<close> is 32 bits wide.\<close>

definition is_int32 :: "int \<Rightarrow> bool" where
  "is_int32 k = (- (2 ^ 31) \<le> k \<and> k < 2 ^ 31)"

lemma Node_ctor_Inr:
  assumes "is_int32 k" "Node_ctor k = Inr n"
  shows "0 < k \<and> n = \<lparr>regretSum = replicate (nat k) 0, strategy = replicate (nat k) 0,
            strategySum = replicate (nat k) 0, visitCount = 0\<rparr>"
proof -
  consider "k < 0" | "k = 0" | "0 < k" by linarith
  then show ?thesis
  proof cases
    case 1
    then show ?thesis using assms Node_ctor_neg [of k] by (simp add: is_int32_def)
  next
    case 2
    then show ?thesis using assms Node_ctor_zero by simp
  next
    case 3
    then show ?thesis using assms Node_ctor_pos [of k] by (simp add: is_int32_def)
  qed
qed

lemma Node_ctor_same_sizes:
  assumes "is_int32 k" "Node_ctor k = Inr n"
  shows "same_sizes n" "\<forall>x\<in>set (strategySum n). 0 \<le> x" "\<forall>x\<in>set (strategy n). 0 \<le> x"
  using Node_ctor_Inr [OF assms] by (simp_all add: same_sizes_def)



subsection \<open>Claims about the node\<close>

definition node2 :: Node where
  "node2 = \<lparr>regretSum = [0, 0], strategy = [0, 0], strategySum = [0, 0], visitCount = 0\<rparr>"

lemma Node_ctor_2: "Node_ctor 2 = Inr node2"
  by (simp add: Node_ctor_pos node2_def eval_nat_numeral)

lemma Node_default_eq:
  "Node_default = Inr \<lparr>regretSum = [0, 0, 0], strategy = [0, 0, 0],
                        strategySum = [0, 0, 0], visitCount = 0\<rparr>"
  by (simp add: Node_default_def Node_ctor_pos eval_nat_numeral)

text \<open>
  Claim C10. A default-constructed node has three action slots, and its first
  \<^verbatim>\<open>getStrategy\<close> returns \<open>(1/3, 1/3, 1/3)\<close> whatever the weight; \<^verbatim>\<open>Node(0)\<close> throws
  \<^verbatim>\<open>std::invalid_argument\<close>. \<^verbatim>\<open>Node(-1)\<close> does not: the member initialisers run before the
  constructor body, and building a vector of \<open>2^64 - 1\<close> doubles throws \<^verbatim>\<open>std::length_error\<close>,
  so the body's test \<^verbatim>\<open>numActions <= 0\<close> is never reached for a negative count.
\<close>

theorem default_node_slots_and_bad_counts:
  "Node_default = Inr \<lparr>regretSum = [0, 0, 0], strategy = [0, 0, 0],
                        strategySum = [0, 0, 0], visitCount = 0\<rparr>
   \<and> map_sum id (\<lambda>n. snd (getStrategy n w)) Node_default = Inr [1 / 3, 1 / 3, 1 / 3]
   \<and> Node_ctor 0 = Inl (invalid_argument ''Number of actions must be positive'')
   \<and> Node_ctor (- 1) = Inl (length_error ''cannot create std::vector larger than max_size()'')"
proof -
  have "map_sum id (\<lambda>n. snd (getStrategy n w)) Node_default = Inr [1 / 3, 1 / 3, 1 / 3]"
    by (simp add: Node_default_eq getStrategy_def normalizeStrategy_def clipped_def Let_def
        eval_nat_numeral)
  moreover have "Node_ctor (- 1)
      = Inl (length_error ''cannot create std::vector larger than max_size()'')"
    by (simp add: Node_ctor_neg)
  ultimately show ?thesis
    using Node_default_eq Node_ctor_zero by simp
qed

lemma getAverageStrategy_sum:
  assumes "0 < length (strategySum n)"
  shows "sum_list (getAverageStrategy n) = 1"
proof (cases "0 < sum_list (strategySum n)")
  case True
  then show ?thesis by (simp add: getAverageStrategy_def Let_def sum_list_map_div)
next
  case False
  then show ?thesis using assms
    by (simp add: getAverageStrategy_def Let_def sum_list_replicate)
qed

text \<open>
  Claim C6. For a node built by \<^verbatim>\<open>Node(k)\<close> and any history of \<^verbatim>\<open>updateRegret\<close> and
  \<^verbatim>\<open>getStrategy\<close> calls (any regrets, all-negative ones included, and any weights): the vector
  \<^verbatim>\<open>getStrategy(x)\<close> returns, for any \<open>x\<close>, is a probability distribution (entries in
  \<open>[0, 1]\<close>, sum exactly one, hence within \<open>1e-9\<close> of one), the uniform vector when the
  clipped regret sum is zero and the normalised clipped regrets otherwise; and the vector
  \<^verbatim>\<open>getAverageStrategy()\<close> returns sums to exactly one. When no \<^verbatim>\<open>getStrategy\<close> call of the
  history had a negative weight (a history of \<^verbatim>\<open>updateRegret\<close> calls alone is such a history),
  the vector \<^verbatim>\<open>getAverageStrategy()\<close> returns is a probability distribution as well, the
  uniform vector when the accumulated strategy sum is zero and the normalised sum otherwise.
\<close>

theorem strategies_are_distributions:
  assumes "is_int32 k" and "Node_ctor k = Inr n0"
  shows "is_distribution (snd (getStrategy (node_run n0 cs) x))
       \<and> \<bar>sum_list (snd (getStrategy (node_run n0 cs) x)) - 1\<bar> \<le> 1 / 10 ^ 9
       \<and> snd (getStrategy (node_run n0 cs) x) =
           (if sum_list (clipped (regretSum (node_run n0 cs))) = 0
            then replicate (length (regretSum (node_run n0 cs)))
                   (1 / real (length (regretSum (node_run n0 cs))))
            else map (\<lambda>r. r / sum_list (clipped (regretSum (node_run n0 cs))))
                   (clipped (regretSum (node_run n0 cs))))
       \<and> sum_list (getAverageStrategy (node_run n0 cs)) = 1
       \<and> \<bar>sum_list (getAverageStrategy (node_run n0 cs)) - 1\<bar> \<le> 1 / 10 ^ 9
       \<and> (list_all nonneg_weight cs \<longrightarrow>
            is_distribution (getAverageStrategy (node_run n0 cs))
            \<and> getAverageStrategy (node_run n0 cs) =
                (if sum_list (strategySum (node_run n0 cs)) = 0
                 then replicate (length (strategySum (node_run n0 cs)))
                        (1 / real (length (strategySum (node_run n0 cs))))
                 else map (\<lambda>s. s / sum_list (strategySum (node_run n0 cs)))
                        (strategySum (node_run n0 cs))))"
proof -
  define n where "n = node_run n0 cs"
  have ok: "same_sizes n"
    unfolding n_def using Node_ctor_same_sizes(1) [OF assms(1,2)] by (rule same_sizes_run)
  have len: "0 < length (regretSum n)" "0 < length (strategySum n)"
    using ok by (simp_all add: same_sizes_def)
  have d1: "is_distribution (snd (getStrategy n x))"
    using len(1) by (rule getStrategy_distribution)
  have c0: "0 \<le> sum_list (clipped (regretSum n))"
    using clipped_nonneg by (simp add: sum_list_nonneg)
  have e1: "snd (getStrategy n x) =
      (if sum_list (clipped (regretSum n)) = 0
       then replicate (length (regretSum n)) (1 / real (length (regretSum n)))
       else map (\<lambda>r. r / sum_list (clipped (regretSum n))) (clipped (regretSum n)))"
    using c0 by (simp add: getStrategy_fields normalizeStrategy_def Let_def)
  have t1: "\<bar>sum_list (snd (getStrategy n x)) - 1\<bar> \<le> 1 / 10 ^ 9"
    using d1 by (simp add: is_distribution_def)
  have s2: "sum_list (getAverageStrategy n) = 1"
    using len(2) by (rule getAverageStrategy_sum)
  have t2: "\<bar>sum_list (getAverageStrategy n) - 1\<bar> \<le> 1 / 10 ^ 9"
    using s2 by simp
  have w: "is_distribution (getAverageStrategy n)
           \<and> getAverageStrategy n =
                (if sum_list (strategySum n) = 0
                 then replicate (length (strategySum n)) (1 / real (length (strategySum n)))
                 else map (\<lambda>s. s / sum_list (strategySum n)) (strategySum n))"
    if nw: "list_all nonneg_weight cs"
  proof -
    have nn: "\<forall>v\<in>set (strategySum n). 0 \<le> v"
      unfolding n_def
      using Node_ctor_same_sizes(1,2) [OF assms(1,2)] nw by (rule strategySum_nonneg_run)
    have d2: "is_distribution (getAverageStrategy n)"
      using len(2) nn by (rule getAverageStrategy_distribution)
    have s0: "0 \<le> sum_list (strategySum n)"
      using nn by (simp add: sum_list_nonneg)
    have e2: "getAverageStrategy n =
        (if sum_list (strategySum n) = 0
         then replicate (length (strategySum n)) (1 / real (length (strategySum n)))
         else map (\<lambda>s. s / sum_list (strategySum n)) (strategySum n))"
      using s0 by (simp add: getAverageStrategy_def Let_def)
    show ?thesis using d2 e2 by blast
  qed
  show ?thesis
    using d1 t1 e1 s2 t2 w unfolding n_def by blast
qed

theorem strategies_are_distributions_witness:
  "is_distribution
     (snd (getStrategy (node_run node2 [UpdateRegret 0 (- 1), UpdateRegret 1 (- 3), GetStrategy 1]) 1))
   \<and> snd (getStrategy (node_run node2 [UpdateRegret 0 (- 1), UpdateRegret 1 (- 3), GetStrategy 1]) 1)
       = [1 / 2, 1 / 2]
   \<and> is_distribution
       (getAverageStrategy (node_run node2 [UpdateRegret 0 (- 1), UpdateRegret 1 (- 3), GetStrategy 1]))
   \<and> getAverageStrategy (node_run node2 [UpdateRegret 0 (- 1), UpdateRegret 1 (- 3), GetStrategy 1])
       = [1 / 2, 1 / 2]
   \<and> getAverageStrategy (node_run node2 [UpdateRegret 0 (- 1), UpdateRegret 1 (- 3)])
       = [1 / 2, 1 / 2]"
proof -
  have a: "is_int32 2" by (simp add: is_int32_def)
  have c: "list_all nonneg_weight [UpdateRegret 0 (- 1), UpdateRegret 1 (- 3), GetStrategy 1]"
    by simp
  have c': "list_all nonneg_weight [UpdateRegret 0 (- 1), UpdateRegret 1 (- 3)]"
    by simp
  have r: "node_run node2 [UpdateRegret 0 (- 1), UpdateRegret 1 (- 3), GetStrategy 1]
      = \<lparr>regretSum = [- 1, - 3], strategy = [1 / 2, 1 / 2], strategySum = [1 / 2, 1 / 2],
         visitCount = 1\<rparr>"
    by (simp add: node2_def node_run_def getStrategy_def normalizeStrategy_def clipped_def
        updateRegret_def Let_def)
  have r': "node_run node2 [UpdateRegret 0 (- 1), UpdateRegret 1 (- 3)]
      = \<lparr>regretSum = [- 1, - 3], strategy = [0, 0], strategySum = [0, 0], visitCount = 0\<rparr>"
    by (simp add: node2_def node_run_def updateRegret_def)
  note t = strategies_are_distributions [OF a Node_ctor_2, of
      "[UpdateRegret 0 (- 1), UpdateRegret 1 (- 3), GetStrategy 1]" 1]
  note t' = strategies_are_distributions [OF a Node_ctor_2, of
      "[UpdateRegret 0 (- 1), UpdateRegret 1 (- 3)]" 1]
  have d: "is_distribution
      (snd (getStrategy (node_run node2 [UpdateRegret 0 (- 1), UpdateRegret 1 (- 3), GetStrategy 1]) 1))"
    using t by blast
  have e1: "snd (getStrategy (node_run node2 [UpdateRegret 0 (- 1), UpdateRegret 1 (- 3), GetStrategy 1]) 1)
      = [1 / 2, 1 / 2]"
    using t by (simp add: r clipped_def)
  have d2: "is_distribution
       (getAverageStrategy (node_run node2 [UpdateRegret 0 (- 1), UpdateRegret 1 (- 3), GetStrategy 1]))"
    using t c by blast
  have e2: "getAverageStrategy (node_run node2 [UpdateRegret 0 (- 1), UpdateRegret 1 (- 3), GetStrategy 1])
      = [1 / 2, 1 / 2]"
    using t c by (simp add: r clipped_def)
  have e3: "getAverageStrategy (node_run node2 [UpdateRegret 0 (- 1), UpdateRegret 1 (- 3)])
      = [1 / 2, 1 / 2]"
    using t' c' by (simp add: r' eval_nat_numeral)
  show ?thesis
    using d e1 d2 e2 e3 by blast
qed

text \<open>
  The entries of the average strategy are the one place where the weights matter: a negative
  weight drives an entry of \<^verbatim>\<open>strategySum_\<close> below zero. After
  \<^verbatim>\<open>updateRegret(0, 1); getStrategy(1); updateRegret(0, -2); updateRegret(1, 1); getStrategy(-0.5)\<close>
  on a two-action node, \<^verbatim>\<open>getAverageStrategy()\<close> returns \<open>(2, -1)\<close>, which still sums to one.
\<close>

lemma average_strategy_negative_weight:
  "(case Node_ctor 2 of
      Inl e \<Rightarrow> False
    | Inr n \<Rightarrow>
        getAverageStrategy
          (node_run n [UpdateRegret 0 1, GetStrategy 1, UpdateRegret 0 (- 2),
                       UpdateRegret 1 1, GetStrategy (- 1 / 2)]) = [2, - 1]
        \<and> \<not> is_distribution
          (getAverageStrategy
            (node_run n [UpdateRegret 0 1, GetStrategy 1, UpdateRegret 0 (- 2),
                         UpdateRegret 1 1, GetStrategy (- 1 / 2)])))"
  by (simp add: Node_ctor_2 node2_def node_run_def getStrategy_def normalizeStrategy_def
      clipped_def updateRegret_def getAverageStrategy_def is_distribution_def Let_def)

text \<open>
  Claim C7, as stated, fails for \<^verbatim>\<open>regretSum_\<close>: normalisation clips into \<^verbatim>\<open>strategy_\<close> and
  leaves \<^verbatim>\<open>regretSum_\<close> as it is. After \<^verbatim>\<open>updateRegret(0, -1); getStrategy(1)\<close> on a two-action
  node, \<^verbatim>\<open>regretSum_\<close> is \<open>(-1, 0)\<close>.
\<close>

theorem regretSum_negative_after_normalization_counterexample:
  "(case Node_ctor 2 of
      Inl e \<Rightarrow> False
    | Inr n \<Rightarrow>
        regretSum (node_run n [UpdateRegret 0 (- 1), GetStrategy 1]) = [- 1, 0]
        \<and> regretSum (node_run n [UpdateRegret 0 (- 1), GetStrategy 1]) ! 0 < 0)"
  by (simp add: Node_ctor_2 node2_def node_run_def getStrategy_def normalizeStrategy_def
      clipped_def updateRegret_def Let_def)

text \<open>
  Claim C7, amended. For a node built by \<^verbatim>\<open>Node(k)\<close> and any history of \<^verbatim>\<open>getStrategy\<close> and
  \<^verbatim>\<open>updateRegret\<close> calls whose weights are not negative, every entry of \<^verbatim>\<open>strategySum_\<close> and
  of the current strategy \<^verbatim>\<open>strategy_\<close> is non-negative. \<^verbatim>\<open>regretSum_\<close> is not clipped:
  \<^verbatim>\<open>getStrategy\<close> leaves it exactly as the \<^verbatim>\<open>updateRegret\<close> calls made it (and so it may hold
  negative entries).
\<close>

theorem strategySum_and_strategy_nonneg:
  assumes "is_int32 k" and "Node_ctor k = Inr n0" and "list_all nonneg_weight cs"
  shows "list_all (\<lambda>v. 0 \<le> v) (strategySum (node_run n0 cs))
       \<and> list_all (\<lambda>v. 0 \<le> v) (strategy (node_run n0 cs))
       \<and> regretSum (fst (getStrategy (node_run n0 cs) w)) = regretSum (node_run n0 cs)"
proof -
  have "\<forall>v\<in>set (strategySum (node_run n0 cs)). 0 \<le> v"
    using Node_ctor_same_sizes(1,2) [OF assms(1,2)] assms(3) by (rule strategySum_nonneg_run)
  moreover have "\<forall>v\<in>set (strategy (node_run n0 cs)). 0 \<le> v"
    using Node_ctor_same_sizes(1,3) [OF assms(1,2)] by (rule strategy_nonneg_run)
  ultimately show ?thesis
    by (simp add: list_all_iff getStrategy_fields)
qed

theorem strategySum_and_strategy_nonneg_witness:
  "list_all (\<lambda>v. 0 \<le> v)
     (strategySum (node_run node2 [UpdateRegret 0 (- 1), UpdateRegret 1 2, GetStrategy 1]))
   \<and> strategySum (node_run node2 [UpdateRegret 0 (- 1), UpdateRegret 1 2, GetStrategy 1]) = [0, 1]
   \<and> regretSum (node_run node2 [UpdateRegret 0 (- 1), UpdateRegret 1 2, GetStrategy 1]) = [- 1, 2]"
proof -
  have a: "is_int32 2" by (simp add: is_int32_def)
  have c: "list_all nonneg_weight [UpdateRegret 0 (- 1), UpdateRegret 1 2, GetStrategy 1]"
    by simp
  have r: "node_run node2 [UpdateRegret 0 (- 1), UpdateRegret 1 2, GetStrategy 1]
      = \<lparr>regretSum = [- 1, 2], strategy = [0, 1], strategySum = [0, 1], visitCount = 1\<rparr>"
    by (simp add: node2_def node_run_def getStrategy_def normalizeStrategy_def clipped_def
        updateRegret_def Let_def)
  show ?thesis
    using strategySum_and_strategy_nonneg [OF a Node_ctor_2 c, of 1]
    by (simp add: r)
qed


section \<open>Cards and the deck (\<^verbatim>\<open>card.hpp\<close>, \<^verbatim>\<open>card.cpp\<close>)\<close>

record Card =
  rank :: string
  suit :: string

definition RANK_VALUES :: "(string \<times> int) list" where
  "RANK_VALUES =
     [(''2'', 2), (''3'', 3), (''4'', 4), (''5'', 5), (''6'', 6), (''7'', 7), (''8'', 8),
      (''9'', 9), (''10'', 10), (''J'', 11), (''Q'', 12), (''K'', 13), (''A'', 14)]"

definition getRankValue :: "Card \<Rightarrow> int" where
  "getRankValue c = (case map_of RANK_VALUES (rank c) of Some v \<Rightarrow> v | None \<Rightarrow> 0)"

definition validSuits :: "string list" where
  "validSuits = [''h'', ''d'', ''c'', ''s'']"

definition isValid :: "Card \<Rightarrow> bool" where
  "isValid c = (map_of RANK_VALUES (rank c) \<noteq> None \<and> suit c \<in> set validSuits)"

definition Card_ctor :: "string \<Rightarrow> string \<Rightarrow> error + Card" where
  "Card_ctor r s =
     (if \<not> isValid \<lparr>rank = r, suit = s\<rparr>
      then Inl (invalid_argument (''Invalid card: '' @ r @ s))
      else Inr \<lparr>rank = r, suit = s\<rparr>)"

text \<open>\<^verbatim>\<open>Deck::createStandardDeck\<close>: ranks in the outer loop, suits in the inner one.\<close>

definition deck_suits :: "string list" where
  "deck_suits = [''h'', ''d'', ''c'', ''s'']"

definition deck_ranks :: "string list" where
  "deck_ranks = [''2'', ''3'', ''4'', ''5'', ''6''] @ [''7'', ''8'', ''9'', ''10'']
                  @ [''J'', ''Q'', ''K'', ''A'']"

definition createStandardDeck :: "Card list" where
  "createStandardDeck =
     concat (map (\<lambda>r. map (\<lambda>s. \<lparr>rank = r, suit = s\<rparr>) deck_suits) deck_ranks)"

text \<open>
  A \<^verbatim>\<open>Deck\<close> is its vector \<^verbatim>\<open>cards_\<close>. The constructor shuffles the standard deck with a
  generator seeded from the environment; the embedding takes the shuffled vector as given: any
  arrangement of the 52 cards.
\<close>

definition shuffled :: "Card list \<Rightarrow> bool" where
  "shuffled d = (distinct d \<and> set d = set createStandardDeck)"

text \<open>\<^verbatim>\<open>Deck::dealCard\<close>: the card at the back of the vector, and the vector without it.\<close>

definition dealCard :: "Card list \<Rightarrow> error + (Card \<times> Card list)" where
  "dealCard cards =
     (if cards = [] then Inl (runtime_error ''Cannot deal from empty deck'')
      else Inr (last cards, butlast cards))"

text \<open>The loop of \<^verbatim>\<open>Deck::dealCards\<close>: \<open>count\<close> calls of \<^verbatim>\<open>dealCard\<close>, pushed back in turn.\<close>

fun dealCards_loop :: "nat \<Rightarrow> Card list \<Rightarrow> Card list \<Rightarrow> error + (Card list \<times> Card list)" where
  "dealCards_loop 0 dealt cards = Inr (dealt, cards)"
| "dealCards_loop (Suc k) dealt cards =
     (case dealCard cards of
        Inl e \<Rightarrow> Inl e
      | Inr (c, cards') \<Rightarrow> dealCards_loop k (dealt @ [c]) cards')"

text \<open>\<^verbatim>\<open>Deck::dealCards(count)\<close>: the dealt cards and the deck that is left.\<close>

definition dealCards :: "Card list \<Rightarrow> int \<Rightarrow> error + (Card list \<times> Card list)" where
  "dealCards cards count =
     (if count < 0 then Inl (invalid_argument ''Cannot deal negative number of cards'')
      else if nat count > length cards then Inl (runtime_error ''Not enough cards in deck'')
      else dealCards_loop (nat count) [] cards)"

section \<open>The hand evaluator (\<^verbatim>\<open>poker_evaluator.cpp\<close>)\<close>

datatype HandRank =
  HIGH_CARD | PAIR | TWO_PAIR | THREE_OF_A_KIND | STRAIGHT | FLUSH | FULL_HOUSE
| FOUR_OF_A_KIND | STRAIGHT_FLUSH

fun HandRank_int :: "HandRank \<Rightarrow> int" where
  "HandRank_int HIGH_CARD = 0"
| "HandRank_int PAIR = 1"
| "HandRank_int TWO_PAIR = 2"
| "HandRank_int THREE_OF_A_KIND = 3"
| "HandRank_int STRAIGHT = 4"
| "HandRank_int FLUSH = 5"
| "HandRank_int FULL_HOUSE = 6"
| "HandRank_int FOUR_OF_A_KIND = 7"
| "HandRank_int STRAIGHT_FLUSH = 8"

type_synonym HandScore = "int list"

definition makeScore :: "HandRank \<Rightarrow> int list \<Rightarrow> HandScore" where
  "makeScore handRank tiebreakers = HandRank_int handRank # tiebreakers"

text \<open>\<^verbatim>\<open>PokerEvaluator::compareHands\<close>: the first index (below both sizes) that differs decides.\<close>

fun compareHands :: "HandScore \<Rightarrow> HandScore \<Rightarrow> int" where
  "compareHands (a # as) (b # bs) =
     (if a > b then 1 else if a < b then - 1 else compareHands as bs)"
| "compareHands [] bs = 0"
| "compareHands as [] = 0"

definition isFlush :: "Card list \<Rightarrow> bool" where
  "isFlush hand = (if hand = [] then False else list_all (\<lambda>c. suit c = suit (hd hand)) hand)"

text \<open>
  \<^verbatim>\<open>PokerEvaluator::isStraight\<close>: the result and the value left in the output parameter
  \<^verbatim>\<open>highCard\<close> (the caller initialises it to 0). \<^verbatim>\<open>std::set<int>\<close> iterates in ascending order
  without duplicates.
\<close>

fun consecutive :: "int list \<Rightarrow> bool" where
  "consecutive (a # b # rest) = (b = a + 1 \<and> consecutive (b # rest))"
| "consecutive rest = True"

definition isStraight :: "Card list \<Rightarrow> bool \<times> int" where
  "isStraight hand =
     (let sortedRanks = sort (remdups (map getRankValue hand))
      in if length sortedRanks \<noteq> 5 then (False, 0)
         else if consecutive sortedRanks then (True, last sortedRanks)
         else if sortedRanks = [2, 3, 4, 5, 14] then (True, 5)
         else (False, 0))"

text \<open>
  \<^verbatim>\<open>PokerEvaluator::analyzeRanks\<close>: the array \<^verbatim>\<open>rankCounts\<close>, indexed by rank value. (Its second
  output, \<^verbatim>\<open>sortedRanks\<close>, is never read by the caller and is left out.)
\<close>

definition analyzeRanks :: "Card list \<Rightarrow> int list" where
  "analyzeRanks hand =
     foldl (\<lambda>rankCounts c.
              rankCounts[nat (getRankValue c) := rankCounts ! nat (getRankValue c) + 1])
       (replicate 15 0) hand"

text \<open>The ranks 14 down to 2, the order of every \<^verbatim>\<open>for (int rank = 14; rank >= 2; --rank)\<close>.\<close>

definition ranks_down :: "nat list" where
  "ranks_down = rev [2..<15]"

text \<open>\<^verbatim>\<open>std::vector::resize(n)\<close> on a vector of ints: cut, or pad with zeros.\<close>

definition resize :: "nat \<Rightarrow> int list \<Rightarrow> int list" where
  "resize n xs = take n xs @ replicate (n - length xs) 0"

text \<open>The loop that finds \<^verbatim>\<open>trips\<close> and \<^verbatim>\<open>pair\<close> in \<^verbatim>\<open>evaluateFiveCardHand\<close>.\<close>

definition trips_and_pair :: "int list \<Rightarrow> int \<times> int" where
  "trips_and_pair rankCounts =
     foldl (\<lambda>(trips, pair) r.
              if rankCounts ! r = 3 \<and> trips = 0 then (int r, pair)
              else if rankCounts ! r = 2 \<and> pair = 0 then (trips, int r)
              else (trips, pair))
       (0, 0) ranks_down"

definition first_rank_with :: "int list \<Rightarrow> int \<Rightarrow> int" where
  "first_rank_with rankCounts k =
     (case find (\<lambda>r. rankCounts ! r = k) ranks_down of Some r \<Rightarrow> int r | None \<Rightarrow> 0)"

definition ranks_with :: "int list \<Rightarrow> int \<Rightarrow> int list" where
  "ranks_with rankCounts k = map int (filter (\<lambda>r. rankCounts ! r = k) ranks_down)"

definition sort_desc :: "int list \<Rightarrow> int list" where
  "sort_desc xs = rev (sort xs)"

definition evaluateFiveCardHand :: "Card list \<Rightarrow> error + HandScore" where
  "evaluateFiveCardHand hand =
     (if length hand \<noteq> 5 then Inl (invalid_argument ''Must have exactly 5 cards'')
      else
        let rankCounts = analyzeRanks hand;
            isFlushHand = isFlush hand;
            (isStraightHand, straightHigh) = isStraight hand
        in if isFlushHand \<and> isStraightHand then Inr (makeScore STRAIGHT_FLUSH [straightHigh])
           else case find (\<lambda>r. rankCounts ! r = 4) ranks_down of
             Some r \<Rightarrow> Inr (makeScore FOUR_OF_A_KIND [int r, first_rank_with rankCounts 1])
           | None \<Rightarrow>
             let (trips, pair) = trips_and_pair rankCounts
             in if trips > 0 \<and> pair > 0 then Inr (makeScore FULL_HOUSE [trips, pair])
                else if isFlushHand
                  then Inr (makeScore FLUSH (sort_desc (map getRankValue hand)))
                else if isStraightHand then Inr (makeScore STRAIGHT [straightHigh])
                else if trips > 0
                  then Inr (makeScore THREE_OF_A_KIND
                              (trips # resize 2 (sort_desc (ranks_with rankCounts 1))))
                else
                  let pairs = ranks_with rankCounts 2
                  in if length pairs \<ge> 2
                       then Inr (makeScore TWO_PAIR
                                  [sort_desc pairs ! 0, sort_desc pairs ! 1,
                                   first_rank_with rankCounts 1])
                     else if length pairs = 1
                       then Inr (makeScore PAIR
                                  (pairs ! 0 # resize 3 (sort_desc (ranks_with rankCounts 1))))
                     else Inr (makeScore HIGH_CARD (sort_desc (map getRankValue hand))))"

text \<open>
  \<^verbatim>\<open>generateCombinationsHelper\<close>: the recursion over the start index; a combination is
  recorded when it has \<open>combinationSize\<close> cards.
\<close>

function generateCombinationsHelper ::
  "Card list \<Rightarrow> nat \<Rightarrow> nat \<Rightarrow> Card list \<Rightarrow> Card list list" where
  "generateCombinationsHelper cards combinationSize start currentCombo =
     (if length currentCombo = combinationSize then [currentCombo]
      else concat (map (\<lambda>i. generateCombinationsHelper cards combinationSize (i + 1)
                               (currentCombo @ [cards ! i]))
                     [start..<length cards]))"
  by pat_completeness auto
termination
  by (relation "measure (\<lambda>(cards, k, start, cur). length cards - start)") auto

declare generateCombinationsHelper.simps [simp del]

definition generateCombinations :: "Card list \<Rightarrow> error + Card list list" where
  "generateCombinations cards =
     (if length cards \<noteq> 7 then Inl (invalid_argument ''Must have exactly 7 cards for combinations'')
      else Inr (generateCombinationsHelper cards 5 0 []))"

text \<open>The loop of \<^verbatim>\<open>evaluateHand\<close> over the combinations, keeping the best score so far.\<close>

fun best_of :: "HandScore \<Rightarrow> Card list list \<Rightarrow> error + HandScore" where
  "best_of bestScore [] = Inr bestScore"
| "best_of bestScore (combo # rest) =
     (case evaluateFiveCardHand combo of
        Inl e \<Rightarrow> Inl e
      | Inr score \<Rightarrow>
          if bestScore = [] \<or> compareHands score bestScore > 0
          then best_of score rest else best_of bestScore rest)"

definition evaluateHand :: "Card list \<Rightarrow> Card list \<Rightarrow> error + HandScore" where
  "evaluateHand holeCards communityCards =
     (if length holeCards \<noteq> 2 then Inl (invalid_argument ''Must have exactly 2 hole cards'')
      else if length communityCards \<noteq> 5
        then Inl (invalid_argument ''Must have exactly 5 community cards'')
      else case generateCombinations (holeCards @ communityCards) of
             Inl e \<Rightarrow> Inl e
           | Inr combinations \<Rightarrow> best_of [] combinations)"


subsection \<open>The nine categories, as the rules state them\<close>








subsection \<open>Facts about the evaluator\<close>

































subsection \<open>Claim about the evaluator\<close>

definition card_of :: "string \<Rightarrow> string \<Rightarrow> Card" where
  "card_of r s = \<lparr>rank = r, suit = s\<rparr>"



text \<open>The hands the repository's tests construct, one of each category, and the two straights.\<close>

lemma constructed_hands_scores:
  "evaluateFiveCardHand
     [card_of ''A'' ''s'', card_of ''K'' ''s'', card_of ''Q'' ''s'', card_of ''J'' ''s'', card_of ''10'' ''s'']
     = Inr [8, 14]"
  "evaluateFiveCardHand
     [card_of ''A'' ''s'', card_of ''A'' ''h'', card_of ''A'' ''d'', card_of ''K'' ''c'', card_of ''K'' ''s'']
     = Inr [6, 14, 13]"
  "evaluateFiveCardHand
     [card_of ''A'' ''s'', card_of ''J'' ''s'', card_of ''9'' ''s'', card_of ''7'' ''s'', card_of ''5'' ''s'']
     = Inr [5, 14, 11, 9, 7, 5]"
  "evaluateFiveCardHand
     [card_of ''A'' ''s'', card_of ''K'' ''h'', card_of ''Q'' ''d'', card_of ''J'' ''c'', card_of ''10'' ''s'']
     = Inr [4, 14]"
  "evaluateFiveCardHand
     [card_of ''A'' ''s'', card_of ''2'' ''h'', card_of ''3'' ''d'', card_of ''4'' ''c'', card_of ''5'' ''s'']
     = Inr [4, 5]"
  "evaluateFiveCardHand
     [card_of ''A'' ''s'', card_of ''A'' ''h'', card_of ''A'' ''d'', card_of ''K'' ''c'', card_of ''Q'' ''s'']
     = Inr [3, 14, 13, 12]"
  "evaluateFiveCardHand
     [card_of ''A'' ''s'', card_of ''A'' ''h'', card_of ''K'' ''d'', card_of ''K'' ''c'', card_of ''Q'' ''s'']
     = Inr [2, 14, 13, 12]"
  "evaluateFiveCardHand
     [card_of ''A'' ''s'', card_of ''A'' ''h'', card_of ''K'' ''d'', card_of ''Q'' ''c'', card_of ''J'' ''s'']
     = Inr [1, 14, 13, 12, 11]"
  "evaluateFiveCardHand
     [card_of ''A'' ''s'', card_of ''K'' ''h'', card_of ''Q'' ''d'', card_of ''J'' ''c'', card_of ''9'' ''s'']
     = Inr [0, 14, 13, 12, 11, 9]"
  "compareHands [4, 14] [4, 5] = 1"
  by code_simp+


section \<open>The game and its state (\<^verbatim>\<open>game.cpp\<close>, \<^verbatim>\<open>game_state.cpp\<close>)\<close>

datatype Action = FOLD | ALL_IN | DEAL

record GameParameters =
  rake_per_hand :: real
  jackpot_fee_per_hand :: real
  jackpot_payout_percentage :: real

text \<open>The default argument \<^verbatim>\<open>gameParams = {}\<close>: every member zero.\<close>

definition no_parameters :: GameParameters where
  "no_parameters = \<lparr>rake_per_hand = 0, jackpot_fee_per_hand = 0, jackpot_payout_percentage = 0\<rparr>"

definition NUM_PLAYERS :: nat where "NUM_PLAYERS = 4"
definition STARTING_STACK_BB :: real where "STARTING_STACK_BB = 8"
definition HOLE_CARDS_PER_PLAYER :: nat where "HOLE_CARDS_PER_PLAYER = 2"
definition COMMUNITY_CARDS :: nat where "COMMUNITY_CARDS = 5"

record Game =
  smallBlind :: real
  bigBlind :: real
  gameParams :: GameParameters
  gameStacks :: "real list"

text \<open>\<^verbatim>\<open>Game::validateConfiguration\<close>: the first check that fails, if any.\<close>

definition validateConfiguration :: "Game \<Rightarrow> error option" where
  "validateConfiguration g =
     (if gameStacks g ! 0 < smallBlind g
        then Some (invalid_argument ''Small blind player stack too small'')
      else if gameStacks g ! 1 < bigBlind g
        then Some (invalid_argument ''Big blind player stack too small'')
      else if rake_per_hand (gameParams g) < 0 \<or> rake_per_hand (gameParams g) > 1
        then Some (invalid_argument ''Rake per hand must be between 0 and 1'')
      else if jackpot_fee_per_hand (gameParams g) < 0 \<or> jackpot_fee_per_hand (gameParams g) > 1
        then Some (invalid_argument ''Jackpot fee per hand must be between 0 and 1'')
      else if jackpot_payout_percentage (gameParams g) < 0
              \<or> jackpot_payout_percentage (gameParams g) > 1
        then Some (invalid_argument ''Jackpot payout percentage must be between 0 and 1'')
      else None)"

text \<open>
  \<^verbatim>\<open>Game::Game(smallBlind, bigBlind, gameParams, initialStacksBB)\<close>. An empty
  \<^verbatim>\<open>initialStacksBB\<close> (the default) gives every seat \<^verbatim>\<open>STARTING_STACK_BB\<close> big blinds.
\<close>

definition Game_ctor :: "real \<Rightarrow> real \<Rightarrow> GameParameters \<Rightarrow> real list \<Rightarrow> error + Game" where
  "Game_ctor sb bb params initialStacksBB =
     (if sb \<le> 0 \<or> bb \<le> 0 then Inl (invalid_argument ''Blinds must be positive'')
      else if sb \<ge> bb then Inl (invalid_argument ''Small blind must be less than big blind'')
      else
        let stacks =
              (if initialStacksBB = [] then Inr (replicate NUM_PLAYERS (STARTING_STACK_BB * bb))
               else if length initialStacksBB \<noteq> NUM_PLAYERS
                 then Inl (invalid_argument ''Must specify stacks for all 4 players'')
               else if list_ex (\<lambda>x. x \<le> 0) initialStacksBB
                 then Inl (invalid_argument ''All stacks must be positive'')
               else Inr (map (\<lambda>x. x * bb) initialStacksBB))
        in case stacks of
             Inl e \<Rightarrow> Inl e
           | Inr st \<Rightarrow>
               let g = \<lparr>smallBlind = sb, bigBlind = bb, gameParams = params, gameStacks = st\<rparr>
               in case validateConfiguration g of Some e \<Rightarrow> Inl e | None \<Rightarrow> Inr g)"

text \<open>
  The state of one hand. \<^verbatim>\<open>game\<close> is what the pointer \<^verbatim>\<open>game_\<close> points to (the game is
  immutable); \<^verbatim>\<open>deck\<close> is the card vector of the \<^verbatim>\<open>Deck\<close> the state owns; \<^verbatim>\<open>allInPlayers\<close> is a
  \<^verbatim>\<open>std::set<int>\<close>; a side pot is its amount and the vector of seats that can win it.
\<close>

record GameState =
  game :: Game
  gameOver :: bool
  nextPlayer :: nat
  pot :: real
  initialStacks :: "real list"
  playerStacks :: "real list"
  folded :: "bool list"
  allInPlayers :: "nat set"
  deck :: "Card list"
  holeCards :: "Card list"
  communityCards :: "Card list"
  sidePots :: "(real \<times> nat list) list"

text \<open>
  \<^verbatim>\<open>GameState::GameState(const Game* game)\<close>, with the freshly shuffled deck \<open>d\<close> its
  \<^verbatim>\<open>std::make_unique<Deck>()\<close> produces.
\<close>

definition GameState_ctor :: "Game \<Rightarrow> Card list \<Rightarrow> GameState" where
  "GameState_ctor g d =
     (let stacks = map (\<lambda>i. gameStacks g ! i) [0..<NUM_PLAYERS]
      in \<lparr>game = g, gameOver = False, nextPlayer = 0, pot = smallBlind g + bigBlind g,
          initialStacks = stacks,
          playerStacks = (stacks[0 := stacks ! 0 - smallBlind g])
                           [1 := stacks ! 1 - bigBlind g],
          folded = replicate NUM_PLAYERS False, allInPlayers = {}, deck = d,
          holeCards = [], communityCards = [], sidePots = []\<rparr>)"

definition isTerminal :: "GameState \<Rightarrow> bool" where
  "isTerminal s = gameOver s"

definition isChanceNode :: "GameState \<Rightarrow> bool" where
  "isChanceNode s = (holeCards s = [] \<and> \<not> gameOver s)"

definition getCurrentPlayer :: "GameState \<Rightarrow> int" where
  "getCurrentPlayer s = (if gameOver s then - 1 else int (nextPlayer s))"

definition getLegalActions :: "GameState \<Rightarrow> Action list" where
  "getLegalActions s =
     (if isChanceNode s then [DEAL]
      else if gameOver s then []
      else let player = getCurrentPlayer s
           in if player < 0 \<or> folded s ! nat player then [] else [FOLD, ALL_IN])"

definition getActivePlayerCount :: "GameState \<Rightarrow> nat" where
  "getActivePlayerCount s = length (filter (\<lambda>i. \<not> folded s ! i) [0..<NUM_PLAYERS])"

text \<open>
  \<^verbatim>\<open>GameState::shouldGameEnd\<close>: at most one seat not folded, or no seat that is neither folded
  nor all-in.
\<close>

definition shouldGameEnd :: "GameState \<Rightarrow> bool" where
  "shouldGameEnd s =
     (if getActivePlayerCount s \<le> 1 then True
      else \<not> list_ex (\<lambda>i. \<not> folded s ! i \<and> i \<notin> allInPlayers s) [0..<NUM_PLAYERS])"

text \<open>
  A member function that changes the state and may throw: the state it leaves behind, on a
  normal return or with the exception.
\<close>

datatype 'a outcome = Returned 'a | Thrown error 'a

fun state_after :: "'a outcome \<Rightarrow> 'a" where
  "state_after (Returned s) = s"
| "state_after (Thrown e s) = s"

fun thrown :: "'a outcome \<Rightarrow> error option" where
  "thrown (Returned s) = None"
| "thrown (Thrown e s) = Some e"

definition dealHoleCards :: "GameState \<Rightarrow> GameState outcome" where
  "dealHoleCards s =
     (if holeCards s \<noteq> [] then Returned s
      else case dealCards (deck s) (int (NUM_PLAYERS * HOLE_CARDS_PER_PLAYER)) of
             Inl e \<Rightarrow> Thrown e s
           | Inr (dealt, rest) \<Rightarrow> Returned (s\<lparr>holeCards := dealt, deck := rest\<rparr>))"

text \<open>
  The \<^verbatim>\<open>do ... while\<close> loop of \<^verbatim>\<open>advanceToNextPlayer\<close>, on the vector \<^verbatim>\<open>folded_\<close>. The
  count of seats not folded does not change while it runs.
\<close>

definition activeCount :: "bool list \<Rightarrow> nat" where
  "activeCount fs = length (filter (\<lambda>i. \<not> fs ! i) [0..<NUM_PLAYERS])"

definition steps_to_active :: "bool list \<Rightarrow> nat \<Rightarrow> nat" where
  "steps_to_active fs p =
     (if activeCount fs > 1
      then length (takeWhile (\<lambda>k. fs ! ((p + k) mod NUM_PLAYERS)) [1..<5])
      else 0)"

lemma upt_1_5: "[1..<5] = [1, 2, 3, 4]"
  by (simp add: upt_conv_Cons)

lemma upt_0_4: "[0..<4] = [0, 1, 2, 3]"
  by (simp add: upt_conv_Cons)

lemma shift_mod4: "((p + 1) mod 4 + k) mod 4 = (p + (k + 1)) mod (4::nat)"
  by (simp add: mod_add_left_eq)

lemma lt4_cases: "(b::nat) < 4 \<Longrightarrow> b = 0 \<or> b = 1 \<or> b = 2 \<or> b = 3"
  by linarith

lemma seat_cases:
  assumes "(b::nat) < 4"
  shows "b = (p + 1) mod 4 \<or> b = (p + 2) mod 4 \<or> b = (p + 3) mod 4 \<or> b = (p + 4) mod 4"
proof -
  have eq: "(p + j) mod 4 = (p mod 4 + j) mod 4" for j
    by (rule mod_add_left_eq [symmetric])
  have "p mod 4 < 4" by simp
  then have r: "p mod 4 = 0 \<or> p mod 4 = 1 \<or> p mod 4 = 2 \<or> p mod 4 = 3" by (rule lt4_cases)
  show ?thesis
    unfolding eq [of 1] eq [of 2] eq [of 3] eq [of 4]
    using r lt4_cases [OF assms] by (elim disjE) simp_all
qed

lemma activeCount_pos: "0 < activeCount fs \<Longrightarrow> \<exists>b<4. \<not> fs ! b"
proof -
  assume "0 < activeCount fs"
  then have "filter (\<lambda>i. \<not> fs ! i) [0..<4] \<noteq> []"
    by (simp add: activeCount_def NUM_PLAYERS_def)
  then obtain b where "b \<in> set [0..<4]" "\<not> fs ! b"
    by (auto simp only: filter_empty_conv)
  then show ?thesis by auto
qed

lemma takeWhile_shift:
  fixes f :: "nat \<Rightarrow> bool"
  assumes "f 1" "\<not> f 2 \<or> \<not> f 3 \<or> \<not> f 4"
  shows "length (takeWhile f [2, 3, 4, 5]) < length (takeWhile f [1, 2, 3, 4])"
  using assms by auto

function advance_loop :: "bool list \<Rightarrow> nat \<Rightarrow> nat" where
  "advance_loop fs p =
     (let p' = (p + 1) mod NUM_PLAYERS
      in if fs ! p' \<and> activeCount fs > 1 then advance_loop fs p' else p')"
  by pat_completeness auto

termination advance_loop
proof (relation "measure (\<lambda>(fs, p). steps_to_active fs p)")
  show "wf (measure (\<lambda>(fs, p). steps_to_active fs p))" by simp
next
  fix fs :: "bool list" and p x :: nat
  assume x: "x = (p + 1) mod NUM_PLAYERS" and c: "fs ! x \<and> 1 < activeCount fs"
  define f where "f = (\<lambda>k. fs ! ((p + k) mod 4))"
  have x4: "x = (p + 1) mod 4" using x by (simp add: NUM_PLAYERS_def)
  have sh: "fs ! ((x + k) mod 4) = f (k + 1)" for k
    unfolding f_def x4 shift_mod4 ..
  obtain b where b: "b < 4" "\<not> fs ! b"
    using activeCount_pos [of fs] c by auto
  have f1: "f 1" using c x4 by (simp add: f_def)
  have fb: "\<not> f 2 \<or> \<not> f 3 \<or> \<not> f 4"
  proof -
    have "b = (p + 1) mod 4 \<or> b = (p + 2) mod 4 \<or> b = (p + 3) mod 4 \<or> b = (p + 4) mod 4"
      using b(1) by (rule seat_cases)
    moreover have "b \<noteq> (p + 1) mod 4" using b(2) c x4 by auto
    ultimately have "\<not> fs ! ((p + 2) mod 4) \<or> \<not> fs ! ((p + 3) mod 4) \<or> \<not> fs ! ((p + 4) mod 4)"
      using b(2) by metis
    then show ?thesis unfolding f_def .
  qed
  have c1: "1 < activeCount fs" using c by simp
  have sp: "steps_to_active fs p = length (takeWhile f [1, 2, 3, 4])"
    by (simp only: steps_to_active_def NUM_PLAYERS_def upt_1_5 f_def c1 if_True)
  have "steps_to_active fs x = length (takeWhile (\<lambda>k. f (k + 1)) [1, 2, 3, 4])"
    by (simp only: steps_to_active_def NUM_PLAYERS_def upt_1_5 sh c1 if_True)
  also have "\<dots> = length (takeWhile f (map (\<lambda>k. k + 1) [1, 2, 3, 4]))"
    by (simp only: takeWhile_map length_map comp_def)
  also have "\<dots> = length (takeWhile f [2, 3, 4, 5])"
  proof -
    have "map (\<lambda>k. k + 1) [1, 2, 3, 4] = [2, 3, 4, 5::nat]" by simp
    then show ?thesis by (simp only:)
  qed
  finally have sx: "steps_to_active fs x = length (takeWhile f [2, 3, 4, 5])" .
  show "((fs, x), (fs, p)) \<in> measure (\<lambda>(fs, p). steps_to_active fs p)"
    using takeWhile_shift [OF f1 fb] by (simp add: sp sx)
qed


declare advance_loop.simps [simp del]

definition advanceToNextPlayer :: "GameState \<Rightarrow> GameState" where
  "advanceToNextPlayer s = s\<lparr>nextPlayer := advance_loop (folded s) (nextPlayer s)\<rparr>"

text \<open>
  The loop of \<^verbatim>\<open>calculateSidePots\<close> over the sorted contributions. Its state: \<^verbatim>\<open>prevAmount\<close>,
  the set \<^verbatim>\<open>eligiblePlayers\<close> (as the ascending vector its iteration gives), the set
  \<^verbatim>\<open>remainingContributors\<close> (likewise) and the side pots pushed so far.
\<close>

fun sidePots_loop ::
  "(real \<times> nat) list \<Rightarrow> real \<Rightarrow> nat list \<Rightarrow> nat list \<Rightarrow> (real \<times> nat list) list
     \<Rightarrow> (real \<times> nat list) list" where
  "sidePots_loop [] prevAmount eligiblePlayers remainingContributors pots = pots"
| "sidePots_loop ((amount, player) # rest) prevAmount eligiblePlayers remainingContributors pots =
     (let potIncrement = (amount - prevAmount) * real (length remainingContributors);
          pots' = (if amount > prevAmount \<and> eligiblePlayers \<noteq> [] \<and> potIncrement > 0
                   then pots @ [(potIncrement, eligiblePlayers)] else pots)
      in sidePots_loop rest amount (removeAll player eligiblePlayers)
           (removeAll player remainingContributors) pots')"

definition contribution :: "GameState \<Rightarrow> nat \<Rightarrow> real" where
  "contribution s i = initialStacks s ! i - playerStacks s ! i"

text \<open>
  \<^verbatim>\<open>GameState::calculateSidePots\<close>. \<^verbatim>\<open>std::sort\<close> on pairs orders by amount, then by seat; no
  two entries are equal, so the sorted vector is determined.
\<close>

definition calculateSidePots :: "GameState \<Rightarrow> GameState" where
  "calculateSidePots s =
     (let contributions =
            map (\<lambda>i. (contribution s i, i))
              (filter (\<lambda>i. contribution s i > 0) [0..<NUM_PLAYERS]);
          eligiblePlayers = filter (\<lambda>i. \<not> folded s ! i) [0..<NUM_PLAYERS];
          allPlayers = filter (\<lambda>i. contribution s i > 0) [0..<NUM_PLAYERS]
      in s\<lparr>sidePots := sidePots_loop (sort contributions) 0 eligiblePlayers allPlayers []\<rparr>)"

definition handleGameEnd :: "GameState \<Rightarrow> GameState outcome" where
  "handleGameEnd s =
     (if communityCards s = []
      then case dealCards (deck s) (int COMMUNITY_CARDS) of
             Inl e \<Rightarrow> Thrown e s
           | Inr (dealt, rest) \<Rightarrow>
               Returned (calculateSidePots (s\<lparr>communityCards := dealt, deck := rest\<rparr>))
      else Returned (calculateSidePots s))"

text \<open>
  \<^verbatim>\<open>GameState::applyAction\<close>. Every \<^verbatim>\<open>throw\<close> of the function is a \<open>Thrown\<close> branch carrying
  the state as it is at that point.
\<close>

definition applyAction :: "GameState \<Rightarrow> Action \<Rightarrow> GameState outcome" where
  "applyAction s action =
     (if isChanceNode s then
        (if action \<noteq> DEAL
         then Thrown (invalid_argument ''Only DEAL action allowed at chance node'') s
         else case dealHoleCards s of
                Thrown e s' \<Rightarrow> Thrown e s'
              | Returned s' \<Rightarrow> Returned (s'\<lparr>nextPlayer := 2\<rparr>))
      else if gameOver s
        then Thrown (invalid_argument ''Cannot apply action to terminal state'') s
      else
        let player = getCurrentPlayer s
        in if player < 0 then Thrown (invalid_argument ''No current player'') s
           else if action \<notin> set (getLegalActions s)
             then Thrown (invalid_argument ''Illegal action'') s
           else
             (case (case action of
                      FOLD \<Rightarrow> Returned (s\<lparr>folded := (folded s)[nat player := True]\<rparr>)
                    | ALL_IN \<Rightarrow>
                        (let amount = playerStacks s ! nat player
                         in Returned (s\<lparr>pot := pot s + amount,
                                         playerStacks := (playerStacks s)[nat player := 0],
                                         allInPlayers := insert (nat player) (allInPlayers s)\<rparr>))
                    | DEAL \<Rightarrow>
                        Thrown (invalid_argument ''Invalid action for non-chance node'') s)
              of Thrown e s' \<Rightarrow> Thrown e s'
               | Returned s1 \<Rightarrow>
                   let s2 = advanceToNextPlayer s1
                   in if shouldGameEnd s2 then handleGameEnd (s2\<lparr>gameOver := True\<rparr>)
                      else Returned s2))"

text \<open>
  The comparator of the \<^verbatim>\<open>std::sort\<close> in \<^verbatim>\<open>getReturns\<close> puts the better score first. The
  order \<^verbatim>\<open>std::sort\<close> leaves among equal scores is not specified; the embedding sorts by
  insertion. The winners (the first entry and the entries after it that tie with it) are the
  same seats under any order a conforming sort produces, and so are the payoffs.
\<close>

fun insert_sorted :: "(HandScore \<times> nat) \<Rightarrow> (HandScore \<times> nat) list \<Rightarrow> (HandScore \<times> nat) list" where
  "insert_sorted x [] = [x]"
| "insert_sorted x (y # ys) =
     (if compareHands (fst x) (fst y) > 0 then x # y # ys else y # insert_sorted x ys)"

definition sort_scores :: "(HandScore \<times> nat) list \<Rightarrow> (HandScore \<times> nat) list" where
  "sort_scores xs = foldr insert_sorted xs []"

text \<open>The scores of the seats of one side pot that have not folded.\<close>

fun playerScores_of :: "GameState \<Rightarrow> nat list \<Rightarrow> error + (HandScore \<times> nat) list" where
  "playerScores_of s [] = Inr []"
| "playerScores_of s (player # rest) =
     (if \<not> folded s ! player
      then case evaluateHand [holeCards s ! (player * 2), holeCards s ! (player * 2 + 1)]
                  (communityCards s) of
             Inl e \<Rightarrow> Inl e
           | Inr score \<Rightarrow>
               (case playerScores_of s rest of
                  Inl e \<Rightarrow> Inl e
                | Inr scores \<Rightarrow> Inr ((score, player) # scores))
      else playerScores_of s rest)"

definition winners_of :: "(HandScore \<times> nat) list \<Rightarrow> nat list" where
  "winners_of sortedScores =
     snd (hd sortedScores)
       # map snd (takeWhile (\<lambda>x. compareHands (fst (hd sortedScores)) (fst x) = 0)
                    (tl sortedScores))"

text \<open>\<^verbatim>\<open>returns[winner] += sharePerWinner\<close> for every winner.\<close>

fun pay_winners :: "real \<Rightarrow> nat list \<Rightarrow> real list \<Rightarrow> real list" where
  "pay_winners share [] returns = returns"
| "pay_winners share (w # ws) returns = pay_winners share ws (returns[w := returns ! w + share])"

text \<open>The loop of \<^verbatim>\<open>getReturns\<close> over the side pots.\<close>

fun distribute :: "GameState \<Rightarrow> (real \<times> nat list) list \<Rightarrow> real list \<Rightarrow> error + real list" where
  "distribute s [] returns = Inr returns"
| "distribute s ((potAmount, contributors) # rest) returns =
     (if contributors = [] then distribute s rest returns
      else case playerScores_of s contributors of
             Inl e \<Rightarrow> Inl e
           | Inr playerScores \<Rightarrow>
               if playerScores = [] then distribute s rest returns
               else
                 let winners = winners_of (sort_scores playerScores);
                     sharePerWinner = potAmount / real (length winners)
                 in distribute s rest (pay_winners sharePerWinner winners returns))"

text \<open>
  \<^verbatim>\<open>GameState::getReturns\<close>: the payoffs, and whether the line
  \<^verbatim>\<open>WARNING: Zero-sum violation in terminal state!\<close> was printed on the way.
\<close>

definition getReturns :: "GameState \<Rightarrow> error + (real list \<times> bool)" where
  "getReturns s =
     (if \<not> gameOver s then Inl (runtime_error ''Cannot get returns for non-terminal state'')
      else
        let investments = map (contribution s) [0..<NUM_PLAYERS]
        in case distribute s (sidePots s) (replicate NUM_PLAYERS 0) of
             Inl e \<Rightarrow> Inl e
           | Inr returns \<Rightarrow>
               let totalInvestments = sum_list investments;
                   totalWinnings = sum_list returns;
                   warning = (\<bar>totalInvestments - totalWinnings\<bar> > 1 / 10 ^ 6)
               in Inr (map (\<lambda>i. returns ! i - investments ! i) [0..<NUM_PLAYERS], warning))"

text \<open>The states a hand can be in: a fresh state, and what \<^verbatim>\<open>applyAction\<close> leaves behind.\<close>

inductive reachable :: "Game \<Rightarrow> GameState \<Rightarrow> bool" for g :: Game where
  initial: "shuffled d \<Longrightarrow> reachable g (GameState_ctor g d)"
| step: "reachable g s \<Longrightarrow> reachable g (state_after (applyAction s a))"

text \<open>A sequence of actions applied in turn, stopping at the first exception.\<close>

fun play :: "GameState \<Rightarrow> Action list \<Rightarrow> GameState outcome" where
  "play s [] = Returned s"
| "play s (a # as) =
     (case applyAction s a of Thrown e s' \<Rightarrow> Thrown e s' | Returned s' \<Rightarrow> play s' as)"


subsection \<open>Facts about the game state\<close>

lemma dealCards_loop_total:
  "k \<le> length cards \<Longrightarrow>
     \<exists>dealt' rest. dealCards_loop k dealt cards = Inr (dealt', rest)
        \<and> length dealt' = length dealt + k \<and> length rest = length cards - k
        \<and> rest = take (length cards - k) cards
        \<and> dealt' = dealt @ rev (drop (length cards - k) cards)"
proof (induction k arbitrary: dealt cards)
  case 0
  then show ?case by simp
next
  case (Suc k)
  then have ne: "cards \<noteq> []" by auto
  have len: "k \<le> length (butlast cards)" using Suc.prems by simp
  obtain dealt' rest where r: "dealCards_loop k (dealt @ [last cards]) (butlast cards) = Inr (dealt', rest)"
      "length dealt' = length (dealt @ [last cards]) + k"
      "length rest = length (butlast cards) - k"
      "rest = take (length (butlast cards) - k) (butlast cards)"
      "dealt' = (dealt @ [last cards]) @ rev (drop (length (butlast cards) - k) (butlast cards))"
    using Suc.IH [OF len, of "dealt @ [last cards]"] by blast
  have t: "take (length cards - Suc k) cards = take (length (butlast cards) - k) (butlast cards)"
  proof -
    have "length cards - Suc k < length cards" using ne by (cases cards) simp_all
    then have "take (length cards - Suc k) (butlast cards) = take (length cards - Suc k) cards"
      by (rule take_butlast)
    then show ?thesis by simp
  qed
  have "drop (length cards - Suc k) cards
      = drop (length cards - Suc k) (butlast cards @ [last cards])"
    using ne by simp
  also have "\<dots> = drop (length cards - Suc k) (butlast cards) @ [last cards]"
    using Suc.prems by simp
  finally have d: "rev (drop (length cards - Suc k) cards)
      = last cards # rev (drop (length (butlast cards) - k) (butlast cards))"
    by simp
  show ?case
    using ne r t d by (simp add: dealCard_def)
qed

lemma dealCards_total:
  assumes "k \<le> length cards"
  shows "\<exists>dealt rest. dealCards cards (int k) = Inr (dealt, rest)
           \<and> length dealt = k \<and> length rest = length cards - k
           \<and> rest = take (length cards - k) cards
           \<and> dealt = rev (drop (length cards - k) cards)"
  using dealCards_loop_total [OF assms, of "[]"] assms by (simp add: dealCards_def)

lemma dealCards_short:
  "length cards < k \<Longrightarrow> dealCards cards (int k) = Inl (runtime_error ''Not enough cards in deck'')"
  by (simp add: dealCards_def)

lemma all_lt4: "(\<forall>i<4. P i) = (P 0 \<and> P 1 \<and> P 2 \<and> P (3::nat))"
proof
  assume "\<forall>i<4. P i"
  then show "P 0 \<and> P 1 \<and> P 2 \<and> P 3" by simp
next
  assume a: "P 0 \<and> P 1 \<and> P 2 \<and> P 3"
  show "\<forall>i<4. P i"
  proof (intro allI impI)
    fix i :: nat
    assume "i < 4"
    then have "i = 0 \<or> i = 1 \<or> i = 2 \<or> i = 3" by linarith
    then show "P i" using a by auto
  qed
qed

lemma list4: "length xs = 4 \<Longrightarrow> xs = [xs ! 0, xs ! 1, xs ! 2, xs ! 3]"
  by (auto simp: eval_nat_numeral length_Suc_conv)

lemma advance_loop_lt: "advance_loop fs p < 4"
  by (induction fs p rule: advance_loop.induct)
     (subst advance_loop.simps, simp add: Let_def NUM_PLAYERS_def)

lemma advance_loop_next:
  "\<not> fs ! ((p + 1) mod 4) \<Longrightarrow> advance_loop fs p = (p + 1) mod 4"
  by (subst advance_loop.simps) (simp add: Let_def NUM_PLAYERS_def)

lemma advance_loop_alone:
  "activeCount fs \<le> 1 \<Longrightarrow> advance_loop fs p = (p + 1) mod 4"
  by (subst advance_loop.simps) (simp add: Let_def NUM_PLAYERS_def)


lemma illegal_action_thrown:
  assumes "a \<notin> set (getLegalActions s)"
  shows "applyAction s a =
     Thrown (invalid_argument
              (if isChanceNode s then ''Only DEAL action allowed at chance node''
               else if gameOver s then ''Cannot apply action to terminal state''
               else ''Illegal action'')) s"
proof (cases "isChanceNode s")
  case True
  then have "a \<noteq> DEAL" using assms by (simp add: getLegalActions_def)
  then show ?thesis using True by (simp add: applyAction_def)
next
  case False
  show ?thesis
  proof (cases "gameOver s")
    case True
    then show ?thesis using False by (simp add: applyAction_def)
  next
    case g: False
    then have "\<not> getCurrentPlayer s < 0" by (simp add: getCurrentPlayer_def)
    then show ?thesis using False g assms by (simp add: applyAction_def Let_def)
  qed
qed

lemma getReturns_not_terminal:
  "\<not> isTerminal s \<Longrightarrow> getReturns s = Inl (runtime_error ''Cannot get returns for non-terminal state'')"
  by (simp add: getReturns_def isTerminal_def)

lemma shouldGameEnd_cong:
  "folded s' = folded s \<Longrightarrow> allInPlayers s' = allInPlayers s \<Longrightarrow> shouldGameEnd s' = shouldGameEnd s"
  by (simp add: shouldGameEnd_def getActivePlayerCount_def)

lemma calculateSidePots_fields:
  "folded (calculateSidePots s) = folded s"
  "allInPlayers (calculateSidePots s) = allInPlayers s"
  "gameOver (calculateSidePots s) = gameOver s"
  "communityCards (calculateSidePots s) = communityCards s"
  "holeCards (calculateSidePots s) = holeCards s"
  "deck (calculateSidePots s) = deck s"
  "pot (calculateSidePots s) = pot s"
  "initialStacks (calculateSidePots s) = initialStacks s"
  "playerStacks (calculateSidePots s) = playerStacks s"
  "game (calculateSidePots s) = game s"
  "nextPlayer (calculateSidePots s) = nextPlayer s"
  by (simp_all add: calculateSidePots_def Let_def)

lemma handleGameEnd_fields:
  "folded (state_after (handleGameEnd s)) = folded s"
  "allInPlayers (state_after (handleGameEnd s)) = allInPlayers s"
  "gameOver (state_after (handleGameEnd s)) = gameOver s"
  "pot (state_after (handleGameEnd s)) = pot s"
  "initialStacks (state_after (handleGameEnd s)) = initialStacks s"
  "playerStacks (state_after (handleGameEnd s)) = playerStacks s"
  "game (state_after (handleGameEnd s)) = game s"
  "nextPlayer (state_after (handleGameEnd s)) = nextPlayer s"
  "holeCards (state_after (handleGameEnd s)) = holeCards s"
  by (simp_all add: handleGameEnd_def calculateSidePots_fields split: sum.splits prod.splits)

text \<open>What a legal fold or all-in does, step by step.\<close>

definition after_decision :: "GameState \<Rightarrow> Action \<Rightarrow> GameState" where
  "after_decision s a =
     (case a of
        FOLD \<Rightarrow> s\<lparr>folded := (folded s)[nextPlayer s := True]\<rparr>
      | ALL_IN \<Rightarrow> s\<lparr>pot := pot s + playerStacks s ! nextPlayer s,
                      playerStacks := (playerStacks s)[nextPlayer s := 0],
                      allInPlayers := insert (nextPlayer s) (allInPlayers s)\<rparr>
      | DEAL \<Rightarrow> s)"

lemma applyAction_decision:
  assumes "\<not> isChanceNode s" "\<not> gameOver s" "a \<in> set (getLegalActions s)"
  shows "applyAction s a =
     (let s2 = advanceToNextPlayer (after_decision s a)
      in if shouldGameEnd s2 then handleGameEnd (s2\<lparr>gameOver := True\<rparr>) else Returned s2)"
proof -
  have np: "\<not> getCurrentPlayer s < 0" "nat (getCurrentPlayer s) = nextPlayer s"
    using assms(2) by (simp_all add: getCurrentPlayer_def)
  have "a = FOLD \<or> a = ALL_IN"
    using assms by (auto simp: getLegalActions_def Let_def split: if_splits)
  then show ?thesis
    using assms np by (auto simp: applyAction_def Let_def after_decision_def)
qed

lemma applyAction_deal:
  assumes "isChanceNode s"
  shows "applyAction s DEAL =
     (case dealCards (deck s) 8 of
        Inl e \<Rightarrow> Thrown e s
      | Inr (dealt, rest) \<Rightarrow> Returned (s\<lparr>holeCards := dealt, deck := rest, nextPlayer := 2\<rparr>))"
  using assms
  by (simp add: applyAction_def isChanceNode_def dealHoleCards_def NUM_PLAYERS_def
      HOLE_CARDS_PER_PLAYER_def split: sum.splits prod.splits)

lemma terminal_iff_step:
  assumes "gameOver s = shouldGameEnd s"
  shows "gameOver (state_after (applyAction s a)) = shouldGameEnd (state_after (applyAction s a))"
proof (cases "a \<in> set (getLegalActions s)")
  case False
  then show ?thesis using assms by (simp add: illegal_action_thrown)
next
  case True
  show ?thesis
  proof (cases "isChanceNode s")
    case c: True
    then have a: "a = DEAL" using True by (simp add: getLegalActions_def)
    have g: "\<not> gameOver s" using c by (simp add: isChanceNode_def)
    show ?thesis
      using assms g unfolding a applyAction_deal [OF c]
      by (auto split: sum.splits prod.splits simp: shouldGameEnd_def getActivePlayerCount_def)
  next
    case c: False
    have g: "\<not> gameOver s" using True c by (auto simp: getLegalActions_def split: if_splits)
    define s2 where "s2 = advanceToNextPlayer (after_decision s a)"
    have g2: "\<not> gameOver s2"
      using g by (simp add: s2_def advanceToNextPlayer_def after_decision_def split: Action.splits)
    show ?thesis
    proof (cases "shouldGameEnd s2")
      case e: True
      have "shouldGameEnd (state_after (handleGameEnd (s2\<lparr>gameOver := True\<rparr>))) = shouldGameEnd s2"
        by (rule shouldGameEnd_cong) (simp_all add: handleGameEnd_fields)
      then show ?thesis
        using e unfolding applyAction_decision [OF c g True] s2_def [symmetric]
        by (simp add: handleGameEnd_fields)
    next
      case e: False
      then show ?thesis
        using g2 unfolding applyAction_decision [OF c g True] s2_def [symmetric] by simp
    qed
  qed
qed


lemma length_createStandardDeck: "length createStandardDeck = 52"
  by (simp add: createStandardDeck_def deck_suits_def deck_ranks_def)

lemma distinct_createStandardDeck: "distinct createStandardDeck"
  by code_simp

lemma shuffled_length: "shuffled d \<Longrightarrow> length d = 52"
proof -
  assume "shuffled d"
  then have "distinct d" "set d = set createStandardDeck" by (simp_all add: shuffled_def)
  then have "length d = card (set createStandardDeck)" by (metis distinct_card)
  also have "\<dots> = length createStandardDeck"
    using distinct_createStandardDeck by (rule distinct_card)
  finally show ?thesis by (simp add: length_createStandardDeck)
qed

definition cards_inv :: "GameState \<Rightarrow> bool" where
  "cards_inv s =
     (if holeCards s = []
      then length (deck s) = 52 \<and> communityCards s = [] \<and> \<not> gameOver s
      else length (holeCards s) = 8
           \<and> (if gameOver s
               then length (communityCards s) = 5 \<and> sidePots s = sidePots (calculateSidePots s)
               else length (deck s) = 44 \<and> communityCards s = []))"

lemma calculateSidePots_idem:
  "sidePots (calculateSidePots (calculateSidePots s)) = sidePots (calculateSidePots s)"
  by (simp add: calculateSidePots_def Let_def contribution_def)

lemma calculateSidePots_cong:
  "initialStacks s' = initialStacks s \<Longrightarrow> playerStacks s' = playerStacks s
     \<Longrightarrow> folded s' = folded s
     \<Longrightarrow> sidePots (calculateSidePots s') = sidePots (calculateSidePots s)"
  by (simp add: calculateSidePots_def Let_def contribution_def)

lemma cards_inv_initial: "shuffled d \<Longrightarrow> cards_inv (GameState_ctor g d)"
  by (simp add: cards_inv_def GameState_ctor_def Let_def shuffled_length)

lemma after_decision_cards:
  "holeCards (after_decision s a) = holeCards s"
  "communityCards (after_decision s a) = communityCards s"
  "deck (after_decision s a) = deck s"
  "gameOver (after_decision s a) = gameOver s"
  "game (after_decision s a) = game s"
  "initialStacks (after_decision s a) = initialStacks s"
  "nextPlayer (after_decision s a) = nextPlayer s"
  by (simp_all add: after_decision_def split: Action.splits)

lemma advanceToNextPlayer_fields:
  "holeCards (advanceToNextPlayer s) = holeCards s"
  "communityCards (advanceToNextPlayer s) = communityCards s"
  "deck (advanceToNextPlayer s) = deck s"
  "gameOver (advanceToNextPlayer s) = gameOver s"
  "game (advanceToNextPlayer s) = game s"
  "initialStacks (advanceToNextPlayer s) = initialStacks s"
  "playerStacks (advanceToNextPlayer s) = playerStacks s"
  "folded (advanceToNextPlayer s) = folded s"
  "allInPlayers (advanceToNextPlayer s) = allInPlayers s"
  "pot (advanceToNextPlayer s) = pot s"
  "nextPlayer (advanceToNextPlayer s) = advance_loop (folded s) (nextPlayer s)"
  by (simp_all add: advanceToNextPlayer_def)

text \<open>Ending the hand from a state that still has its 44 cards and no community cards.\<close>

lemma handleGameEnd_ok:
  assumes "communityCards s = []" "5 \<le> length (deck s)"
  shows "\<exists>dealt rest. dealCards (deck s) 5 = Inr (dealt, rest) \<and> length dealt = 5
           \<and> handleGameEnd s = Returned (calculateSidePots (s\<lparr>communityCards := dealt, deck := rest\<rparr>))"
proof -
  obtain dealt rest where d: "dealCards (deck s) (int 5) = Inr (dealt, rest)" "length dealt = 5"
    using dealCards_total [OF assms(2)] by blast
  then show ?thesis using assms(1) by (simp add: handleGameEnd_def COMMUNITY_CARDS_def)
qed

lemma cards_inv_step:
  assumes inv: "cards_inv s"
  shows "cards_inv (state_after (applyAction s a)) \<and> thrown (applyAction s a) = 
            (if a \<in> set (getLegalActions s) then None
             else Some (invalid_argument
              (if isChanceNode s then ''Only DEAL action allowed at chance node''
               else if gameOver s then ''Cannot apply action to terminal state''
               else ''Illegal action'')))"
proof (cases "a \<in> set (getLegalActions s)")
  case False
  then show ?thesis using inv by (simp add: illegal_action_thrown)
next
  case True
  show ?thesis
  proof (cases "isChanceNode s")
    case c: True
    then have a: "a = DEAL" using True by (simp add: getLegalActions_def)
    have h: "holeCards s = []" "\<not> gameOver s" using c by (simp_all add: isChanceNode_def)
    have l: "8 \<le> length (deck s)" using inv h by (simp add: cards_inv_def)
    obtain dealt rest where d: "dealCards (deck s) (int 8) = Inr (dealt, rest)"
        "length dealt = 8" "length rest = length (deck s) - 8"
      using dealCards_total [OF l] by blast
    have ne: "dealt \<noteq> []" using d(2) by auto
    show ?thesis
      using inv h d ne True unfolding a applyAction_deal [OF c]
      by (simp add: cards_inv_def)
  next
    case c: False
    have g: "\<not> gameOver s" using True c by (auto simp: getLegalActions_def split: if_splits)
    have h: "holeCards s \<noteq> []" using c g by (simp add: isChanceNode_def)
    define s2 where "s2 = advanceToNextPlayer (after_decision s a)"
    have f2: "holeCards s2 = holeCards s" "communityCards s2 = communityCards s"
      "deck s2 = deck s" "gameOver s2 = gameOver s"
      by (simp_all add: s2_def advanceToNextPlayer_fields after_decision_cards)
    show ?thesis
    proof (cases "shouldGameEnd s2")
      case e: True
      have "communityCards (s2\<lparr>gameOver := True\<rparr>) = []" "5 \<le> length (deck (s2\<lparr>gameOver := True\<rparr>))"
        using inv g h f2 by (simp_all add: cards_inv_def)
      then obtain dealt rest where d: "length dealt = 5"
         "handleGameEnd (s2\<lparr>gameOver := True\<rparr>)
            = Returned (calculateSidePots (s2\<lparr>gameOver := True, communityCards := dealt, deck := rest\<rparr>))"
        using handleGameEnd_ok [of "s2\<lparr>gameOver := True\<rparr>"] by auto
      show ?thesis
        using inv h f2 e d True unfolding applyAction_decision [OF c g True] s2_def [symmetric]
        by (simp add: cards_inv_def calculateSidePots_fields calculateSidePots_idem)
    next
      case e: False
      then show ?thesis
        using inv g h f2 True unfolding applyAction_decision [OF c g True] s2_def [symmetric]
        by (simp add: cards_inv_def)
    qed
  qed
qed

lemma reachable_cards_inv: "reachable g s \<Longrightarrow> cards_inv s"
  by (induction rule: reachable.induct) (simp_all add: cards_inv_initial cards_inv_step)

lemma reachable_terminal_iff: "reachable g s \<Longrightarrow> gameOver s = shouldGameEnd s"
proof (induction rule: reachable.induct)
  case (initial d)
  then show ?case
    by (simp add: GameState_ctor_def Let_def shouldGameEnd_def getActivePlayerCount_def
        NUM_PLAYERS_def upt_0_4)
next
  case (step s a)
  then show ?case by (simp add: terminal_iff_step)
qed

definition blind :: "Game \<Rightarrow> nat \<Rightarrow> real" where
  "blind g i = (if i = 0 then smallBlind g else if i = 1 then bigBlind g else 0)"

definition acted :: "GameState \<Rightarrow> nat \<Rightarrow> bool" where
  "acted s i = (folded s ! i \<or> i \<in> allInPlayers s)"

definition valid_game :: "Game \<Rightarrow> bool" where
  "valid_game g =
     (0 < smallBlind g \<and> smallBlind g < bigBlind g \<and> length (gameStacks g) = 4
      \<and> list_all (\<lambda>x. 0 < x) (gameStacks g)
      \<and> smallBlind g \<le> gameStacks g ! 0 \<and> bigBlind g \<le> gameStacks g ! 1)"

lemma Game_ctor_valid:
  assumes "Game_ctor sb bb params stacksBB = Inr g"
  shows "valid_game g"
proof -
  have b: "0 < sb" "sb < bb"
    using assms by (auto simp: Game_ctor_def split: if_splits)
  define st where "st = (if stacksBB = [] then replicate 4 (8 * bb) else map (\<lambda>x. x * bb) stacksBB)"
  have g: "g = \<lparr>smallBlind = sb, bigBlind = bb, gameParams = params, gameStacks = st\<rparr>"
    and v: "validateConfiguration \<lparr>smallBlind = sb, bigBlind = bb, gameParams = params, gameStacks = st\<rparr> = None"
    and l: "length st = 4" and p: "list_all (\<lambda>x. 0 < x) st"
    using assms b
    by (auto simp: Game_ctor_def Let_def st_def NUM_PLAYERS_def STARTING_STACK_BB_def
        list_all_iff list_ex_iff not_le split: if_splits option.splits)
  have "sb \<le> st ! 0" "bb \<le> st ! 1"
    using v by (auto simp: validateConfiguration_def split: if_splits)
  then show ?thesis using b l p by (simp add: valid_game_def g)
qed

lemma activeCount_nth:
  "activeCount fs = (if fs ! 0 then 0 else 1) + (if fs ! 1 then 0 else 1)
                    + (if fs ! 2 then 0 else 1) + (if fs ! 3 then 0 else 1)"
  by (simp add: activeCount_def NUM_PLAYERS_def upt_0_4)

lemma getActivePlayerCount_eq: "getActivePlayerCount s = activeCount (folded s)"
  by (simp add: getActivePlayerCount_def activeCount_def)

lemma shouldGameEnd_nth:
  "shouldGameEnd s = (activeCount (folded s) \<le> 1
      \<or> (acted s 0 \<and> acted s 1 \<and> acted s 2 \<and> acted s 3))"
  by (auto simp: shouldGameEnd_def getActivePlayerCount_eq NUM_PLAYERS_def upt_0_4 acted_def)

definition chips_inv :: "Game \<Rightarrow> GameState \<Rightarrow> bool" where
  "chips_inv g s =
     (game s = g \<and> initialStacks s = gameStacks g
      \<and> length (folded s) = 4 \<and> length (playerStacks s) = 4
      \<and> allInPlayers s \<subseteq> {..<4}
      \<and> (\<forall>i<4. if i \<in> allInPlayers s then \<not> folded s ! i \<and> playerStacks s ! i = 0
                 else playerStacks s ! i = gameStacks g ! i - blind g i)
      \<and> pot s = contribution s 0 + contribution s 1 + contribution s 2 + contribution s 3)"

definition order_inv :: "GameState \<Rightarrow> bool" where
  "order_inv s =
     ((holeCards s = [] \<longrightarrow> \<not> acted s 0 \<and> \<not> acted s 1 \<and> \<not> acted s 2 \<and> \<not> acted s 3)
      \<and> (holeCards s \<noteq> [] \<and> \<not> gameOver s \<longrightarrow>
            (nextPlayer s = 2 \<and> \<not> acted s 2 \<and> \<not> acted s 3 \<and> \<not> acted s 0 \<and> \<not> acted s 1)
          \<or> (nextPlayer s = 3 \<and> acted s 2 \<and> \<not> acted s 3 \<and> \<not> acted s 0 \<and> \<not> acted s 1)
          \<or> (nextPlayer s = 0 \<and> acted s 2 \<and> acted s 3 \<and> \<not> acted s 0 \<and> \<not> acted s 1)
          \<or> (nextPlayer s = 1 \<and> acted s 2 \<and> acted s 3 \<and> acted s 0 \<and> \<not> acted s 1))
      \<and> 1 \<le> activeCount (folded s)
      \<and> (folded s ! 1 \<longrightarrow> allInPlayers s \<noteq> {}))"

lemma chips_inv_initial:
  assumes "valid_game g"
  shows "chips_inv g (GameState_ctor g d)"
proof -
  have l: "length (gameStacks g) = 4" using assms by (simp add: valid_game_def)
  have m: "map (\<lambda>i. gameStacks g ! i) [0..<4] = gameStacks g"
    using l by (metis map_nth)
  show ?thesis
    using l list4 [OF l]
    by (simp add: chips_inv_def GameState_ctor_def Let_def NUM_PLAYERS_def m all_lt4 blind_def
        contribution_def)
qed

lemma order_inv_initial: "order_inv (GameState_ctor g d)"
  by (simp add: order_inv_def GameState_ctor_def Let_def NUM_PLAYERS_def acted_def activeCount_nth
      eval_nat_numeral)


lemma legal_decision:
  assumes "\<not> isChanceNode s" "a \<in> set (getLegalActions s)"
  shows "\<not> gameOver s" "a = FOLD \<or> a = ALL_IN" "\<not> folded s ! nextPlayer s"
  using assms
  by (auto simp: getLegalActions_def getCurrentPlayer_def Let_def split: if_splits)

lemma decision_result:
  assumes "\<not> isChanceNode s" "a \<in> set (getLegalActions s)"
  defines "t \<equiv> after_decision s a"
  defines "s' \<equiv> state_after (applyAction s a)"
  shows "folded s' = folded t" "allInPlayers s' = allInPlayers t" "playerStacks s' = playerStacks t"
    "pot s' = pot t" "initialStacks s' = initialStacks s" "game s' = game s"
    "holeCards s' = holeCards s"
    "nextPlayer s' = advance_loop (folded t) (nextPlayer s)"
    "gameOver s' = shouldGameEnd s'"
proof -
  have g: "\<not> gameOver s" using legal_decision(1) [OF assms(1,2)] .
  define s2 where "s2 = advanceToNextPlayer t"
  have s': "s' = (if shouldGameEnd s2 then state_after (handleGameEnd (s2\<lparr>gameOver := True\<rparr>)) else s2)"
    unfolding s'_def applyAction_decision [OF assms(1) g assms(2)] t_def [symmetric]
      s2_def [symmetric] by (simp add: Let_def)
  have f2: "folded s2 = folded t" "allInPlayers s2 = allInPlayers t"
    "playerStacks s2 = playerStacks t" "pot s2 = pot t" "initialStacks s2 = initialStacks s"
    "game s2 = game s" "holeCards s2 = holeCards s" "gameOver s2 = False"
    "nextPlayer s2 = advance_loop (folded t) (nextPlayer s)"
    using g by (simp_all add: s2_def t_def advanceToNextPlayer_fields after_decision_cards)
  show "folded s' = folded t" "allInPlayers s' = allInPlayers t" "playerStacks s' = playerStacks t"
    "pot s' = pot t" "initialStacks s' = initialStacks s" "game s' = game s"
    "holeCards s' = holeCards s"
    "nextPlayer s' = advance_loop (folded t) (nextPlayer s)"
    unfolding s' by (simp_all add: handleGameEnd_fields f2)
  then have "shouldGameEnd s' = shouldGameEnd s2"
    using f2(1,2) by (intro shouldGameEnd_cong) simp_all
  then show "gameOver s' = shouldGameEnd s'"
    unfolding s' by (simp add: handleGameEnd_fields f2)
qed

lemma deal_result:
  assumes "isChanceNode s" "cards_inv s"
  defines "s' \<equiv> state_after (applyAction s DEAL)"
  shows "folded s' = folded s" "allInPlayers s' = allInPlayers s" "playerStacks s' = playerStacks s"
    "pot s' = pot s" "initialStacks s' = initialStacks s" "game s' = game s"
    "nextPlayer s' = 2" "gameOver s' = gameOver s" "holeCards s' \<noteq> []"
proof -
  have l: "8 \<le> length (deck s)"
    using assms(1,2) by (simp add: cards_inv_def isChanceNode_def)
  obtain dealt rest where d: "dealCards (deck s) (int 8) = Inr (dealt, rest)" "length dealt = 8"
    using dealCards_total [OF l] by blast
  have s': "s' = s\<lparr>holeCards := dealt, deck := rest, nextPlayer := 2\<rparr>"
    unfolding s'_def applyAction_deal [OF assms(1)] using d(1) by simp
  show "folded s' = folded s" "allInPlayers s' = allInPlayers s" "playerStacks s' = playerStacks s"
    "pot s' = pot s" "initialStacks s' = initialStacks s" "game s' = game s"
    "nextPlayer s' = 2" "gameOver s' = gameOver s" "holeCards s' \<noteq> []"
    using d(2) unfolding s' by auto
qed

lemma chips_inv_decision:
  assumes inv: "chips_inv g s" and nc: "\<not> isChanceNode s" and legal: "a \<in> set (getLegalActions s)"
    and np: "nextPlayer s < 4" and nin: "nextPlayer s \<notin> allInPlayers s"
  shows "chips_inv g (state_after (applyAction s a))"
proof -
  note r = decision_result [OF nc legal]
  note l = legal_decision [OF nc legal]
  have len: "length (folded s) = 4" "length (playerStacks s) = 4"
    using inv by (simp_all add: chips_inv_def)
  from l(2) show ?thesis
  proof
    assume a: "a = FOLD"
    note r' = r [unfolded a]
    have ps: "playerStacks (after_decision s FOLD) = playerStacks s"
      "allInPlayers (after_decision s FOLD) = allInPlayers s"
      "pot (after_decision s FOLD) = pot s"
      "folded (after_decision s FOLD) = (folded s)[nextPlayer s := True]"
      by (simp_all add: after_decision_def)
    show ?thesis
      using inv np nin l(3) len
      unfolding a chips_inv_def r' ps contribution_def
      by (auto simp: nth_list_update)
  next
    assume a: "a = ALL_IN"
    have c: "contribution (after_decision s ALL_IN) i
        = (if i = nextPlayer s then initialStacks s ! i else contribution s i)" if "i < 4" for i
      using that len by (simp add: after_decision_def contribution_def nth_list_update)
    have p: "pot (after_decision s ALL_IN) = pot s + playerStacks s ! nextPlayer s"
      by (simp add: after_decision_def)
    have np': "nextPlayer s = 0 \<or> nextPlayer s = 1 \<or> nextPlayer s = 2 \<or> nextPlayer s = 3"
      using np by (rule lt4_cases)
    have pot': "pot (after_decision s ALL_IN)
        = contribution (state_after (applyAction s ALL_IN)) 0
          + contribution (state_after (applyAction s ALL_IN)) 1
          + contribution (state_after (applyAction s ALL_IN)) 2
          + contribution (state_after (applyAction s ALL_IN)) 3"
    proof -
      have e: "contribution (state_after (applyAction s ALL_IN)) i
                = contribution (after_decision s ALL_IN) i" for i
        using r(3,5) [unfolded a] by (simp add: contribution_def after_decision_cards)
      have ps: "pot s = contribution s 0 + contribution s 1 + contribution s 2 + contribution s 3"
        using inv by (simp add: chips_inv_def)
      have c': "contribution (after_decision s ALL_IN) 0
                 + contribution (after_decision s ALL_IN) 1
                 + contribution (after_decision s ALL_IN) 2
                 + contribution (after_decision s ALL_IN) 3
           = contribution s 0 + contribution s 1 + contribution s 2 + contribution s 3
             - contribution s (nextPlayer s) + initialStacks s ! nextPlayer s"
        using np' by (elim disjE) (simp_all add: c)
      show ?thesis
        unfolding e p c' ps [symmetric] by (simp add: contribution_def)
    qed
    note r' = r [unfolded a]
    have ps: "playerStacks (after_decision s ALL_IN) = (playerStacks s)[nextPlayer s := 0]"
      "allInPlayers (after_decision s ALL_IN) = insert (nextPlayer s) (allInPlayers s)"
      "folded (after_decision s ALL_IN) = folded s"
      by (simp_all add: after_decision_def)
    have rest: "game (state_after (applyAction s ALL_IN)) = g"
       "initialStacks (state_after (applyAction s ALL_IN)) = gameStacks g"
       "length (folded (state_after (applyAction s ALL_IN))) = 4"
       "length (playerStacks (state_after (applyAction s ALL_IN))) = 4"
       "allInPlayers (state_after (applyAction s ALL_IN)) \<subseteq> {..<4}"
       "\<forall>i<4. if i \<in> allInPlayers (state_after (applyAction s ALL_IN))
                then \<not> folded (state_after (applyAction s ALL_IN)) ! i
                     \<and> playerStacks (state_after (applyAction s ALL_IN)) ! i = 0
                else playerStacks (state_after (applyAction s ALL_IN)) ! i
                     = gameStacks g ! i - blind g i"
      using inv np nin l(3) len unfolding chips_inv_def r' ps
      by (auto simp: nth_list_update)
    show ?thesis
      unfolding chips_inv_def using rest pot' [unfolded a] r'(4) a by simp
  qed
qed

lemma acted_cong:
  "folded s' = folded s \<Longrightarrow> allInPlayers s' = allInPlayers s \<Longrightarrow> acted s' i = acted s i"
  by (simp add: acted_def)

lemma acted_after_decision:
  assumes "length (folded s) = 4" "nextPlayer s < 4" "i < 4" "a = FOLD \<or> a = ALL_IN"
  shows "acted (after_decision s a) i = (i = nextPlayer s \<or> acted s i)"
  using assms by (auto simp: acted_def after_decision_def nth_list_update)

lemma activeCount_after_fold:
  assumes "length fs = 4" "p < 4" "\<not> fs ! p"
  shows "activeCount (fs[p := True]) + 1 = activeCount fs"
proof -
  have "p = 0 \<or> p = 1 \<or> p = 2 \<or> p = 3" using assms(2) by (rule lt4_cases)
  then show ?thesis
    using assms(1,3) by (elim disjE) (simp_all add: activeCount_nth)
qed

lemma order_inv_decision:
  assumes inv: "order_inv s" and ti: "gameOver s = shouldGameEnd s"
    and len: "length (folded s) = 4"
    and nc: "\<not> isChanceNode s" and legal: "a \<in> set (getLegalActions s)"
  shows "order_inv (state_after (applyAction s a))"
proof -
  define s' where "s' = state_after (applyAction s a)"
  define t where "t = after_decision s a"
  have r: "folded s' = folded t" "allInPlayers s' = allInPlayers t" "playerStacks s' = playerStacks t"
    "pot s' = pot t" "initialStacks s' = initialStacks s" "game s' = game s"
    "holeCards s' = holeCards s"
    "nextPlayer s' = advance_loop (folded t) (nextPlayer s)"
    "gameOver s' = shouldGameEnd s'"
    unfolding s'_def t_def by (rule decision_result [OF nc legal])+
  note l = legal_decision [OF nc legal]
  have h: "holeCards s \<noteq> []" using nc l(1) by (simp add: isChanceNode_def)
  have ac: "1 < activeCount (folded s)"
    using ti l(1) by (simp add: shouldGameEnd_nth)
  have phase: "(nextPlayer s = 2 \<and> \<not> acted s 2 \<and> \<not> acted s 3 \<and> \<not> acted s 0 \<and> \<not> acted s 1)
          \<or> (nextPlayer s = 3 \<and> acted s 2 \<and> \<not> acted s 3 \<and> \<not> acted s 0 \<and> \<not> acted s 1)
          \<or> (nextPlayer s = 0 \<and> acted s 2 \<and> acted s 3 \<and> \<not> acted s 0 \<and> \<not> acted s 1)
          \<or> (nextPlayer s = 1 \<and> acted s 2 \<and> acted s 3 \<and> acted s 0 \<and> \<not> acted s 1)"
    using inv h l(1) by (simp add: order_inv_def)
  then have np: "nextPlayer s < 4" by auto
  have at: "acted s' i = (i = nextPlayer s \<or> acted s i)" if "i < 4" for i
  proof -
    have "acted s' i = acted t i" using r(1,2) by (rule acted_cong)
    then show ?thesis
      unfolding t_def using acted_after_decision [OF len np that l(2)] by simp
  qed
  have at4: "acted s' 0 = (0 = nextPlayer s \<or> acted s 0)" "acted s' 1 = (1 = nextPlayer s \<or> acted s 1)"
    "acted s' 2 = (2 = nextPlayer s \<or> acted s 2)" "acted s' 3 = (3 = nextPlayer s \<or> acted s 3)"
    using at by simp_all
  have nf: "\<not> folded t ! i" if "\<not> acted s i" "i < 4" "i \<noteq> nextPlayer s" for i
  proof -
    have "\<not> acted s' i" using at [OF that(2)] that(1,3) by simp
    then show ?thesis using r(1) by (simp add: acted_def)
  qed
  have c2: "holeCards s' \<noteq> [] \<and> \<not> gameOver s' \<longrightarrow>
            (nextPlayer s' = 2 \<and> \<not> acted s' 2 \<and> \<not> acted s' 3 \<and> \<not> acted s' 0 \<and> \<not> acted s' 1)
          \<or> (nextPlayer s' = 3 \<and> acted s' 2 \<and> \<not> acted s' 3 \<and> \<not> acted s' 0 \<and> \<not> acted s' 1)
          \<or> (nextPlayer s' = 0 \<and> acted s' 2 \<and> acted s' 3 \<and> \<not> acted s' 0 \<and> \<not> acted s' 1)
          \<or> (nextPlayer s' = 1 \<and> acted s' 2 \<and> acted s' 3 \<and> acted s' 0 \<and> \<not> acted s' 1)"
    using phase
  proof (elim disjE conjE)
    assume p: "nextPlayer s = 2" "\<not> acted s 2" "\<not> acted s 3" "\<not> acted s 0" "\<not> acted s 1"
    have "\<not> folded t ! 3" using nf [of 3] p by simp
    then have "nextPlayer s' = 3"
      unfolding r(8) p(1) using advance_loop_next [of "folded t" 2] by simp
    then show ?thesis unfolding at4 using p by simp
  next
    assume p: "nextPlayer s = 3" "acted s 2" "\<not> acted s 3" "\<not> acted s 0" "\<not> acted s 1"
    have "\<not> folded t ! 0" using nf [of 0] p by simp
    then have "nextPlayer s' = 0"
      unfolding r(8) p(1) using advance_loop_next [of "folded t" 3] by simp
    then show ?thesis unfolding at4 using p by simp
  next
    assume p: "nextPlayer s = 0" "acted s 2" "acted s 3" "\<not> acted s 0" "\<not> acted s 1"
    have "\<not> folded t ! 1" using nf [of 1] p by simp
    then have "nextPlayer s' = 1"
      unfolding r(8) p(1) using advance_loop_next [of "folded t" 0] by simp
    then show ?thesis unfolding at4 using p by simp
  next
    assume p: "nextPlayer s = 1" "acted s 2" "acted s 3" "acted s 0" "\<not> acted s 1"
    have "shouldGameEnd s'" unfolding shouldGameEnd_nth at4 using p by simp
    then show ?thesis using r(9) by simp
  qed
  have c3: "1 \<le> activeCount (folded s')"
  proof (cases "a = FOLD")
    case True
    have "folded s' = (folded s)[nextPlayer s := True]"
      unfolding r(1) t_def True by (simp add: after_decision_def)
    then show ?thesis
      using activeCount_after_fold [OF len np l(3)] ac by simp
  next
    case False
    then have "a = ALL_IN" using l(2) by simp
    then have "folded s' = folded s"
      unfolding r(1) t_def by (simp add: after_decision_def)
    then show ?thesis using ac by simp
  qed
  have c4: "folded s' ! 1 \<longrightarrow> allInPlayers s' \<noteq> {}"
  proof (cases "a = FOLD")
    case True
    have f: "folded s' = (folded s)[nextPlayer s := True]" "allInPlayers s' = allInPlayers s"
      unfolding r(1,2) t_def True by (simp_all add: after_decision_def)
    show ?thesis
    proof (cases "nextPlayer s = 1")
      case p1: True
      then have a3: "acted s 2" "acted s 3" "acted s 0" "\<not> folded s ! 1"
        using phase l(3) by auto
      have "\<not> folded s ! 0 \<or> \<not> folded s ! 2 \<or> \<not> folded s ! 3"
        using ac a3(4) by (auto simp: activeCount_nth split: if_splits)
      then have "allInPlayers s \<noteq> {}" using a3(1,2,3) by (auto simp: acted_def)
      then show ?thesis using f by simp
    next
      case False
      then have "folded s' ! 1 = folded s ! 1" using f(1) len by (simp add: nth_list_update)
      then show ?thesis using inv f(2) by (simp add: order_inv_def)
    qed
  next
    case False
    then have "a = ALL_IN" using l(2) by simp
    then have "allInPlayers s' = insert (nextPlayer s) (allInPlayers s)"
      unfolding r(2) t_def by (simp add: after_decision_def)
    then show ?thesis by simp
  qed
  have c1: "holeCards s' = [] \<longrightarrow> \<not> acted s' 0 \<and> \<not> acted s' 1 \<and> \<not> acted s' 2 \<and> \<not> acted s' 3"
    using h r(7) by simp
  show ?thesis
    unfolding s'_def [symmetric] order_inv_def using c1 c2 c3 c4 by blast
qed


definition table_inv :: "Game \<Rightarrow> GameState \<Rightarrow> bool" where
  "table_inv g s = (chips_inv g s \<and> order_inv s \<and> cards_inv s \<and> gameOver s = shouldGameEnd s)"

lemma contribution_cong:
  "initialStacks s' = initialStacks s \<Longrightarrow> playerStacks s' = playerStacks s
     \<Longrightarrow> contribution s' i = contribution s i"
  by (simp add: contribution_def)

lemma table_inv_step:
  assumes inv: "table_inv g s"
  shows "table_inv g (state_after (applyAction s a))"
proof (cases "a \<in> set (getLegalActions s)")
  case False
  then show ?thesis using inv by (simp add: illegal_action_thrown)
next
  case legal: True
  have ci: "chips_inv g s" and oi: "order_inv s" and ki: "cards_inv s"
    and ti: "gameOver s = shouldGameEnd s"
    using inv by (simp_all add: table_inv_def)
  have len: "length (folded s) = 4" using ci by (simp add: chips_inv_def)
  define s' where "s' = state_after (applyAction s a)"
  have k': "cards_inv s'" unfolding s'_def using ki by (simp add: cards_inv_step)
  have t': "gameOver s' = shouldGameEnd s'" unfolding s'_def using ti by (rule terminal_iff_step)
  show ?thesis
  proof (cases "isChanceNode s")
    case c: True
    then have a: "a = DEAL" using legal by (simp add: getLegalActions_def)
    have r: "folded s' = folded s" "allInPlayers s' = allInPlayers s"
      "playerStacks s' = playerStacks s" "pot s' = pot s" "initialStacks s' = initialStacks s"
      "game s' = game s" "nextPlayer s' = 2" "gameOver s' = gameOver s" "holeCards s' \<noteq> []"
      unfolding s'_def a by (rule deal_result [OF c ki])+
    have h: "holeCards s = []" using c by (simp add: isChanceNode_def)
    have co: "contribution s' i = contribution s i" for i
      using r(5,3) by (rule contribution_cong)
    have c': "chips_inv g s'"
      using ci unfolding chips_inv_def r co by simp
    have ac: "acted s' i = acted s i" for i using r(1,2) by (rule acted_cong)
    have o': "order_inv s'"
      using oi h r(9) unfolding order_inv_def ac r(1,2,7) by simp
    show ?thesis
      unfolding s'_def [symmetric] table_inv_def using c' o' k' t' by simp
  next
    case nc: False
    note l = legal_decision [OF nc legal]
    have h: "holeCards s \<noteq> []" using nc l(1) by (simp add: isChanceNode_def)
    have phase: "(nextPlayer s = 2 \<and> \<not> acted s 2 \<and> \<not> acted s 3 \<and> \<not> acted s 0 \<and> \<not> acted s 1)
          \<or> (nextPlayer s = 3 \<and> acted s 2 \<and> \<not> acted s 3 \<and> \<not> acted s 0 \<and> \<not> acted s 1)
          \<or> (nextPlayer s = 0 \<and> acted s 2 \<and> acted s 3 \<and> \<not> acted s 0 \<and> \<not> acted s 1)
          \<or> (nextPlayer s = 1 \<and> acted s 2 \<and> acted s 3 \<and> acted s 0 \<and> \<not> acted s 1)"
      using oi h l(1) by (simp add: order_inv_def)
    then have np: "nextPlayer s < 4" by auto
    have "\<not> acted s (nextPlayer s)" using phase by auto
    then have nin: "nextPlayer s \<notin> allInPlayers s" by (simp add: acted_def)
    have c': "chips_inv g s'"
      unfolding s'_def using ci nc legal np nin by (rule chips_inv_decision)
    have o': "order_inv s'"
      unfolding s'_def using oi ti len nc legal by (rule order_inv_decision)
    show ?thesis
      unfolding s'_def [symmetric] table_inv_def using c' o' k' t' by simp
  qed
qed

lemma reachable_table_inv:
  assumes "valid_game g" "reachable g s"
  shows "table_inv g s"
  using assms(2)
proof (induction rule: reachable.induct)
  case (initial d)
  have "gameOver (GameState_ctor g d) = shouldGameEnd (GameState_ctor g d)"
    using reachable.initial [OF initial, of g] by (rule reachable_terminal_iff)
  then show ?case
    using chips_inv_initial [OF assms(1)] order_inv_initial cards_inv_initial [OF initial]
    by (simp add: table_inv_def)
next
  case (step s a)
  then show ?case by (simp add: table_inv_step)
qed

definition pot_total :: "(real \<times> nat list) list \<Rightarrow> real" where
  "pot_total pots = sum_list (map fst pots)"

lemma pot_total_append [simp]: "pot_total (ps @ [(x, e)]) = pot_total ps + x"
  by (simp add: pot_total_def)

lemma length_removeAll_distinct:
  "distinct xs \<Longrightarrow> x \<in> set xs \<Longrightarrow> length (removeAll x xs) + 1 = length xs"
  by (induction xs) auto

lemma same_set_same_length:
  "distinct xs \<Longrightarrow> distinct ys \<Longrightarrow> set xs = set ys \<Longrightarrow> length xs = length ys"
  by (metis distinct_card)

lemma sidePots_loop_total:
  assumes "distinct (map snd cs)" "distinct rem" "set rem = set (map snd cs)"
    and "sorted (map fst cs)" "\<forall>c\<in>set cs. prev \<le> fst c"
    and "\<forall>c\<in>set cs. prev < fst c \<longrightarrow> (\<exists>c'\<in>set cs. snd c' \<in> set elig \<and> fst c \<le> fst c')"
  shows "pot_total (sidePots_loop cs prev elig rem pots)
           = pot_total pots + (\<Sum>c\<leftarrow>cs. fst c - prev)"
  using assms
proof (induction cs arbitrary: prev elig rem pots)
  case Nil
  then show ?case by simp
next
  case (Cons c rest)
  obtain amount player where c: "c = (amount, player)" by (cases c)
  have len: "length rem = length (c # rest)"
    using same_set_same_length [OF Cons.prems(2) Cons.prems(1)] Cons.prems(3) by simp
  have ge: "prev \<le> amount" using Cons.prems(5) c by simp
  define inc where "inc = (amount - prev) * real (length rem)"
  define pots' where "pots' = (if amount > prev \<and> elig \<noteq> [] \<and> inc > 0
                              then pots @ [(inc, elig)] else pots)"
  have added: "pot_total pots' = pot_total pots + (amount - prev) * real (length (c # rest))"
  proof (cases "prev < amount")
    case True
    then obtain c' where "c' \<in> set (c # rest)" "snd c' \<in> set elig"
      using Cons.prems(6) c by (metis fst_conv list.set_intros(1))
    then have e: "elig \<noteq> []" by auto
    have "0 < inc" using True len by (simp add: inc_def)
    then show ?thesis using True e len by (simp add: pots'_def inc_def)
  next
    case False
    then have "amount = prev" using ge by simp
    then show ?thesis by (simp add: pots'_def)
  qed
  have p1: "distinct (map snd rest)" using Cons.prems(1) by simp
  have pl: "player \<notin> set (map snd rest)" using Cons.prems(1) c by simp
  have p2: "distinct (removeAll player rem)" using Cons.prems(2) by (simp add: distinct_removeAll)
  have p3: "set (removeAll player rem) = set (map snd rest)"
    using Cons.prems(3) pl c by auto
  have p4: "sorted (map fst rest)" using Cons.prems(4) by simp
  have p5: "\<forall>x\<in>set rest. amount \<le> fst x" using Cons.prems(4) c by auto
  have p6: "\<forall>x\<in>set rest. amount < fst x \<longrightarrow>
              (\<exists>c'\<in>set rest. snd c' \<in> set (removeAll player elig) \<and> fst x \<le> fst c')"
  proof (intro ballI impI)
    fix x assume x: "x \<in> set rest" "amount < fst x"
    then have "prev < fst x" using ge by simp
    then obtain c' where c': "c' \<in> set (c # rest)" "snd c' \<in> set elig" "fst x \<le> fst c'"
      using Cons.prems(6) x(1) by (metis list.set_intros(2))
    have "c' \<noteq> c" using c'(3) x(2) c by auto
    then have in_rest: "c' \<in> set rest" using c'(1) by simp
    then have "snd c' \<noteq> player" using pl by force
    then show "\<exists>c'\<in>set rest. snd c' \<in> set (removeAll player elig) \<and> fst x \<le> fst c'"
      using in_rest c'(2,3) by auto
  qed
  have "pot_total (sidePots_loop (c # rest) prev elig rem pots)
      = pot_total (sidePots_loop rest amount (removeAll player elig) (removeAll player rem) pots')"
    by (simp add: c Let_def pots'_def inc_def)
  also have "\<dots> = pot_total pots' + (\<Sum>x\<leftarrow>rest. fst x - amount)"
    using p1 p2 p3 p4 p5 p6 by (rule Cons.IH)
  also have "\<dots> = pot_total pots + (\<Sum>x\<leftarrow>c # rest. fst x - prev)"
  proof -
    have "(\<Sum>x\<leftarrow>rest. fst x - prev) = (\<Sum>x\<leftarrow>rest. fst x - amount) + real (length rest) * (amount - prev)"
      by (induction rest) (simp_all add: algebra_simps)
    then show ?thesis unfolding added by (simp add: c algebra_simps)
  qed
  finally show ?case .
qed

lemma sidePots_loop_eligible:
  assumes "\<forall>p\<in>set pots. snd p \<noteq> [] \<and> set (snd p) \<subseteq> E" "set elig \<subseteq> E"
  shows "\<forall>p\<in>set (sidePots_loop cs prev elig rem pots). snd p \<noteq> [] \<and> set (snd p) \<subseteq> E"
  using assms
proof (induction cs arbitrary: prev elig rem pots)
  case Nil
  then show ?case by simp
next
  case (Cons c rest)
  obtain amount player where c: "c = (amount, player)" by (cases c)
  show ?case
    unfolding c sidePots_loop.simps Let_def
    by (rule Cons.IH) (use Cons.prems in auto)
qed

lemma sum_list_insort: "sum_list (map f (insort x xs)) = f x + sum_list (map f xs)"
  for f :: "'a::linorder \<Rightarrow> real"
  by (induction xs) simp_all

lemma sum_list_sort: "sum_list (map f (sort xs)) = sum_list (map f xs)"
  for f :: "'a::linorder \<Rightarrow> real"
  by (induction xs) (simp_all add: sum_list_insort)

lemma sorted_fst_of_sorted:
  fixes cs :: "(real \<times> nat) list"
  assumes "sorted cs"
  shows "sorted (map fst cs)"
proof -
  have "sorted_wrt (\<lambda>x y. fst x \<le> fst y) cs"
    using assms by (rule sorted_wrt_mono_rel [rotated]) (auto simp: less_eq_prod_def)
  then show ?thesis by (simp add: sorted_map)
qed

lemma sum_list_filter_zero:
  fixes f :: "'a \<Rightarrow> real"
  assumes "\<forall>x\<in>set xs. \<not> P x \<longrightarrow> f x = 0"
  shows "sum_list (map f (filter P xs)) = sum_list (map f xs)"
  using assms by (induction xs) simp_all

lemma filter_pos_sum4:
  fixes c :: "nat \<Rightarrow> real"
  assumes "\<forall>i<4. 0 \<le> c i"
  shows "(\<Sum>i\<leftarrow>filter (\<lambda>i. c i > 0) [0..<4]. c i) = c 0 + c 1 + c 2 + c 3"
proof -
  have "\<forall>i\<in>set [0..<4]. \<not> c i > 0 \<longrightarrow> c i = 0" using assms by force
  then have "(\<Sum>i\<leftarrow>filter (\<lambda>i. c i > 0) [0..<4]. c i) = (\<Sum>i\<leftarrow>[0..<4]. c i)"
    by (rule sum_list_filter_zero)
  then show ?thesis by (simp add: upt_0_4)
qed

lemma calculateSidePots_total:
  assumes nn: "\<forall>i<4. 0 \<le> contribution s i"
    and top: "\<exists>q<4. \<not> folded s ! q \<and> (\<forall>i<4. contribution s i \<le> contribution s q)"
  shows "pot_total (sidePots (calculateSidePots s))
           = contribution s 0 + contribution s 1 + contribution s 2 + contribution s 3"
proof -
  define L where "L = filter (\<lambda>i. contribution s i > 0) [0..<4]"
  define xs where "xs = map (\<lambda>i. (contribution s i, i)) L"
  define elig where "elig = filter (\<lambda>i. \<not> folded s ! i) [0..<4]"
  have sp: "sidePots (calculateSidePots s) = sidePots_loop (sort xs) 0 elig L []"
    by (simp add: calculateSidePots_def Let_def NUM_PLAYERS_def xs_def L_def elig_def)
  have dL: "distinct L" by (simp add: L_def)
  have sndxs: "map snd xs = L" by (simp add: xs_def comp_def)
  have dxs: "distinct xs" using dL by (simp add: xs_def distinct_map inj_on_def)
  have inj: "inj_on snd (set xs)" by (auto simp: xs_def inj_on_def)
  have a1: "distinct (map snd (sort xs))"
    using dxs inj by (simp add: distinct_map)
  have a3: "set L = set (map snd (sort xs))"
    using sndxs by (metis set_map set_sort)
  have a4: "sorted (map fst (sort xs))" by (rule sorted_fst_of_sorted) simp
  have a5: "\<forall>c\<in>set (sort xs). 0 \<le> fst c" by (auto simp: xs_def L_def)
  obtain q where q: "q < 4" "\<not> folded s ! q" "\<forall>i<4. contribution s i \<le> contribution s q"
    using top by blast
  have a6: "\<forall>c\<in>set (sort xs). 0 < fst c \<longrightarrow>
               (\<exists>c'\<in>set (sort xs). snd c' \<in> set elig \<and> fst c \<le> fst c')"
  proof (intro ballI impI)
    fix c assume c: "c \<in> set (sort xs)" "0 < fst c"
    then obtain i where i: "i < 4" "c = (contribution s i, i)" by (auto simp: xs_def L_def)
    have le: "fst c \<le> contribution s q" using q(3) i by simp
    then have "0 < contribution s q" using c(2) by simp
    then have "(contribution s q, q) \<in> set (sort xs)" using q(1) by (simp add: xs_def L_def)
    moreover have "q \<in> set elig" using q(1,2) by (simp add: elig_def)
    ultimately show "\<exists>c'\<in>set (sort xs). snd c' \<in> set elig \<and> fst c \<le> fst c'"
      using le by (intro bexI [of _ "(contribution s q, q)"]) simp_all
  qed
  have "pot_total (sidePots (calculateSidePots s)) = pot_total [] + (\<Sum>c\<leftarrow>sort xs. fst c - 0)"
    unfolding sp using a1 dL a3 a4 a5 a6 by (rule sidePots_loop_total)
  also have "\<dots> = (\<Sum>c\<leftarrow>xs. fst c)"
    by (simp add: pot_total_def sum_list_sort)
  also have "\<dots> = (\<Sum>i\<leftarrow>L. contribution s i)"
    by (simp add: xs_def comp_def)
  also have "\<dots> = contribution s 0 + contribution s 1 + contribution s 2 + contribution s 3"
    unfolding L_def using nn by (rule filter_pos_sum4)
  finally show ?thesis .
qed

lemma calculateSidePots_eligible:
  "\<forall>p\<in>set (sidePots (calculateSidePots s)).
      snd p \<noteq> [] \<and> (\<forall>w\<in>set (snd p). w < 4 \<and> \<not> folded s ! w)"
proof -
  have "\<forall>p\<in>set (sidePots_loop cs 0 (filter (\<lambda>i. \<not> folded s ! i) [0..<4]) rm []).
          snd p \<noteq> [] \<and> set (snd p) \<subseteq> {w. w < 4 \<and> \<not> folded s ! w}" for cs rm
    by (rule sidePots_loop_eligible) auto
  then show ?thesis
    by (auto simp: calculateSidePots_def Let_def NUM_PLAYERS_def)
qed

lemma blind_le: "valid_game g \<Longrightarrow> 0 \<le> blind g i \<and> blind g i \<le> bigBlind g"
  by (auto simp: valid_game_def blind_def)

lemma chips_contribution:
  assumes "chips_inv g s" "i < 4"
  shows "contribution s i = (if i \<in> allInPlayers s then gameStacks g ! i else blind g i)"
  using assms by (auto simp: chips_inv_def contribution_def)

lemma contributions_nonneg:
  assumes "valid_game g" "chips_inv g s"
  shows "\<forall>i<4. 0 \<le> contribution s i"
proof (intro allI impI)
  fix i :: nat assume i: "i < 4"
  have "0 < gameStacks g ! i"
    using assms(1) i by (simp add: valid_game_def list_all_length)
  then show "0 \<le> contribution s i"
    using chips_contribution [OF assms(2) i] blind_le [OF assms(1), of i] by simp
qed

lemma terminal_top_contributor:
  assumes vg: "valid_game g" and big: "\<forall>i<4. bigBlind g \<le> gameStacks g ! i"
    and inv: "table_inv g s" and over: "gameOver s"
  shows "\<exists>q<4. \<not> folded s ! q \<and> (\<forall>i<4. contribution s i \<le> contribution s q)"
proof -
  have ci: "chips_inv g s" and oi: "order_inv s" using inv by (simp_all add: table_inv_def)
  show ?thesis
  proof (cases "allInPlayers s = {}")
    case True
    then have nf: "\<not> folded s ! 1" using oi by (simp add: order_inv_def)
    have "contribution s i \<le> contribution s 1" if "i < 4" for i
      using chips_contribution [OF ci that] chips_contribution [OF ci, of 1] True
        blind_le [OF vg, of i] by (simp add: blind_def)
    then show ?thesis using nf by (intro exI [of _ 1]) simp
  next
    case False
    have fin: "finite (allInPlayers s)"
      using ci by (auto simp: chips_inv_def intro: finite_subset)
    define m where "m = Max ((\<lambda>i. gameStacks g ! i) ` allInPlayers s)"
    have "m \<in> (\<lambda>i. gameStacks g ! i) ` allInPlayers s"
      unfolding m_def using fin False by (intro Max_in) simp_all
    then obtain q where q: "q \<in> allInPlayers s" "gameStacks g ! q = m" by auto
    have q4: "q < 4" using ci q(1) by (auto simp: chips_inv_def)
    have nf: "\<not> folded s ! q" using ci q(1) q4 by (auto simp: chips_inv_def)
    have cq: "contribution s q = m" using chips_contribution [OF ci q4] q by simp
    have "contribution s i \<le> m" if i: "i < 4" for i
    proof (cases "i \<in> allInPlayers s")
      case True
      then have "gameStacks g ! i \<le> m" unfolding m_def using fin by (intro Max_ge) simp_all
      then show ?thesis using chips_contribution [OF ci i] True by simp
    next
      case False
      have "bigBlind g \<le> m" using big q4 q(2) by auto
      then show ?thesis
        using chips_contribution [OF ci i] False blind_le [OF vg, of i] by simp
    qed
    then show ?thesis using q4 nf cq by auto
  qed
qed

lemma evaluateFiveCardHand_total:
  "length hand = 5 \<Longrightarrow> \<exists>score. evaluateFiveCardHand hand = Inr score"
  by (simp add: evaluateFiveCardHand_def Let_def split: prod.splits option.splits)

lemma combinations_length:
  "length cur \<le> k \<Longrightarrow> \<forall>c\<in>set (generateCombinationsHelper cards k start cur). length c = k"
proof (induction cards k start cur rule: generateCombinationsHelper.induct)
  case (1 cards k start cur)
  show ?case
  proof (cases "length cur = k")
    case True
    then show ?thesis by (subst generateCombinationsHelper.simps) simp
  next
    case False
    then have "length (cur @ [cards ! i]) \<le> k" for i using "1.prems" by simp
    then have "\<forall>c\<in>set (generateCombinationsHelper cards k (i + 1) (cur @ [cards ! i])). length c = k"
      if "i \<in> set [start..<length cards]" for i
      using "1.IH" [OF False that] by blast
    then have ih: "\<forall>i\<in>set [start..<length cards].
        \<forall>c\<in>set (generateCombinationsHelper cards k (i + 1) (cur @ [cards ! i])). length c = k"
      by blast
    have eq: "generateCombinationsHelper cards k start cur
        = concat (map (\<lambda>i. generateCombinationsHelper cards k (i + 1) (cur @ [cards ! i]))
                    [start..<length cards])"
      using False by (subst generateCombinationsHelper.simps) simp
    show ?thesis
      unfolding eq using ih by (simp only: set_concat set_map) blast
  qed
qed

lemma best_of_total:
  "\<forall>c\<in>set combos. length c = 5 \<Longrightarrow> \<exists>score. best_of best combos = Inr score"
proof (induction combos arbitrary: best)
  case Nil
  then show ?case by simp
next
  case (Cons c combos)
  then obtain sc where "evaluateFiveCardHand c = Inr sc"
    using evaluateFiveCardHand_total [of c] by auto
  then show ?case using Cons by simp
qed

lemma evaluateHand_total:
  assumes "length hole = 2" "length community = 5"
  shows "\<exists>score. evaluateHand hole community = Inr score"
proof -
  have "\<forall>c\<in>set (generateCombinationsHelper (hole @ community) 5 0 []). length c = 5"
    by (rule combinations_length) simp
  then show ?thesis
    using assms best_of_total by (simp add: evaluateHand_def generateCombinations_def)
qed

lemma playerScores_of_total:
  assumes "length (communityCards s) = 5"
  shows "\<exists>scores. playerScores_of s contributors = Inr scores
           \<and> map snd scores = filter (\<lambda>p. \<not> folded s ! p) contributors"
proof (induction contributors)
  case Nil
  then show ?case by simp
next
  case (Cons p ps)
  obtain sc where "evaluateHand [holeCards s ! (p * 2), holeCards s ! (p * 2 + 1)] (communityCards s) = Inr sc"
    using evaluateHand_total [OF _ assms, of "[holeCards s ! (p * 2), holeCards s ! (p * 2 + 1)]"]
    by auto
  then show ?case using Cons by auto
qed

lemma set_insert_sorted: "set (insert_sorted x ys) = insert x (set ys)"
  by (induction ys) auto

lemma set_sort_scores: "set (sort_scores xs) = set xs"
  unfolding sort_scores_def by (induction xs) (simp_all add: set_insert_sorted)

lemma winners_of_subset:
  assumes "sc \<noteq> []"
  shows "set (winners_of sc) \<subseteq> snd ` set sc" "winners_of sc \<noteq> []"
proof -
  obtain h t where sc: "sc = h # t" using assms by (cases sc) auto
  have "set (takeWhile (\<lambda>x. compareHands (fst h) (fst x) = 0) t) \<subseteq> set t"
    by (auto dest: set_takeWhileD)
  then show "set (winners_of sc) \<subseteq> snd ` set sc"
    unfolding winners_of_def sc by auto
  show "winners_of sc \<noteq> []" by (simp add: winners_of_def)
qed

lemma sum_list_update_add:
  fixes xs :: "real list"
  shows "i < length xs \<Longrightarrow> sum_list (xs[i := xs ! i + v]) = sum_list xs + v"
proof (induction xs arbitrary: i)
  case Nil
  then show ?case by simp
next
  case (Cons x xs)
  then show ?case by (cases i) simp_all
qed

lemma pay_winners_sum:
  "\<forall>w\<in>set ws. w < length returns \<Longrightarrow>
     length (pay_winners share ws returns) = length returns
     \<and> sum_list (pay_winners share ws returns) = sum_list returns + share * real (length ws)"
proof (induction ws arbitrary: returns)
  case Nil
  then show ?case by simp
next
  case (Cons w ws)
  define returns' where "returns' = returns[w := returns ! w + share]"
  have w: "w < length returns" using Cons.prems by simp
  have l: "length returns' = length returns" by (simp add: returns'_def)
  have su: "sum_list returns' = sum_list returns + share"
    unfolding returns'_def using w by (rule sum_list_update_add)
  have "\<forall>w\<in>set ws. w < length returns'" using Cons.prems l by simp
  then have ih: "length (pay_winners share ws returns') = length returns'"
    "sum_list (pay_winners share ws returns') = sum_list returns' + share * real (length ws)"
    using Cons.IH [of returns'] by simp_all
  have "pay_winners share (w # ws) returns = pay_winners share ws returns'"
    by (simp add: returns'_def)
  then show ?case using ih l su by (simp add: algebra_simps)
qed

lemma distribute_total:
  assumes cc: "length (communityCards s) = 5"
    and el: "\<forall>p\<in>set pots. snd p \<noteq> [] \<and> (\<forall>w\<in>set (snd p). w < 4 \<and> \<not> folded s ! w)"
    and len: "length returns = 4"
  shows "\<exists>r. distribute s pots returns = Inr r \<and> length r = 4
           \<and> sum_list r = sum_list returns + pot_total pots"
  using el len
proof (induction pots arbitrary: returns)
  case Nil
  then show ?case by (simp add: pot_total_def)
next
  case (Cons p pots)
  obtain amount contributors where p: "p = (amount, contributors)" by (cases p)
  have ne: "contributors \<noteq> []" and ok: "\<forall>w\<in>set contributors. w < 4 \<and> \<not> folded s ! w"
    using Cons.prems(1) p by auto
  obtain scores where sc: "playerScores_of s contributors = Inr scores"
      "map snd scores = filter (\<lambda>p. \<not> folded s ! p) contributors"
    using playerScores_of_total [OF cc] by blast
  have "filter (\<lambda>p. \<not> folded s ! p) contributors = contributors"
    using ok by (simp add: filter_id_conv)
  then have ms: "map snd scores = contributors" using sc(2) by simp
  then have sne: "scores \<noteq> []" using ne by auto
  define winners where "winners = winners_of (sort_scores scores)"
  have ssne: "sort_scores scores \<noteq> []"
    using sne set_sort_scores [of scores] by (metis set_empty)
  have "set winners \<subseteq> snd ` set (sort_scores scores)"
    unfolding winners_def using ssne by (rule winners_of_subset)
  then have "set winners \<subseteq> set contributors"
    using ms by (metis set_map set_sort_scores)
  then have w4: "\<forall>w\<in>set winners. w < length returns" using ok Cons.prems(2) by auto
  have wne: "winners \<noteq> []" unfolding winners_def using ssne by (rule winners_of_subset)
  define returns' where "returns' = pay_winners (amount / real (length winners)) winners returns"
  have r': "length returns' = 4" "sum_list returns' = sum_list returns + amount"
    using pay_winners_sum [OF w4, of "amount / real (length winners)"] wne Cons.prems(2)
    by (simp_all add: returns'_def)
  have "\<forall>p\<in>set pots. snd p \<noteq> [] \<and> (\<forall>w\<in>set (snd p). w < 4 \<and> \<not> folded s ! w)"
    using Cons.prems(1) by simp
  then obtain r where r: "distribute s pots returns' = Inr r" "length r = 4"
      "sum_list r = sum_list returns' + pot_total pots"
    using Cons.IH [OF _ r'(1)] by blast
  have "distribute s (p # pots) returns = distribute s pots returns'"
    using ne sne sc(1) by (simp add: p Let_def winners_def returns'_def)
  then show ?case using r r'(2) by (simp add: p pot_total_def)
qed

lemma sum_net4:
  fixes r :: "real list"
  assumes "length r = 4"
  shows "sum_list (map (\<lambda>i. r ! i - c i) [0..<4]) = sum_list r - (c 0 + c 1 + c 2 + c 3)"
proof -
  have "r = [r ! 0, r ! 1, r ! 2, r ! 3]" using assms by (rule list4)
  then have "sum_list r = r ! 0 + r ! 1 + r ! 2 + r ! 3" by (metis sum_list.Cons sum_list.Nil add.assoc add_0_right)
  then show ?thesis by (simp add: upt_0_4)
qed

lemma getReturns_terminal:
  assumes inv: "table_inv g s" and over: "gameOver s"
  shows "\<exists>rets. getReturns s
            = Inr (rets, \<bar>pot s - pot_total (sidePots s)\<bar> > 1 / 10 ^ 6)
           \<and> length rets = 4 \<and> sum_list rets = pot_total (sidePots s) - pot s"
proof -
  have ci: "chips_inv g s" and ki: "cards_inv s" using inv by (simp_all add: table_inv_def)
  have h: "holeCards s \<noteq> []" using ki over by (auto simp: cards_inv_def split: if_splits)
  have cc: "length (communityCards s) = 5" and sp: "sidePots s = sidePots (calculateSidePots s)"
    using ki over h by (simp_all add: cards_inv_def)
  have el: "\<forall>p\<in>set (sidePots s). snd p \<noteq> [] \<and> (\<forall>w\<in>set (snd p). w < 4 \<and> \<not> folded s ! w)"
    using calculateSidePots_eligible [of s] sp by simp
  obtain r where r: "distribute s (sidePots s) (replicate 4 0) = Inr r" "length r = 4"
      "sum_list r = sum_list (replicate 4 (0::real)) + pot_total (sidePots s)"
    using distribute_total [OF cc el, of "replicate 4 0"] by auto
  have sr: "sum_list r = pot_total (sidePots s)" using r(3) by (simp add: sum_list_replicate)
  have ps: "pot s = contribution s 0 + contribution s 1 + contribution s 2 + contribution s 3"
    using ci by (simp add: chips_inv_def)
  have si: "sum_list (map (contribution s) [0..<4]) = pot s"
    by (simp add: ps upt_0_4)
  have nth: "map (\<lambda>i. r ! i - map (contribution s) [0..<4] ! i) [0..<4]
      = map (\<lambda>i. r ! i - contribution s i) [0..<4]"
    by (simp add: upt_0_4)
  have net: "sum_list (map (\<lambda>i. r ! i - contribution s i) [0..<4]) = pot_total (sidePots s) - pot s"
    using sum_net4 [OF r(2), of "contribution s"] sr ps by simp
  show ?thesis
    using over r(1) net
    by (simp add: getReturns_def Let_def NUM_PLAYERS_def si sr nth)
qed


subsection \<open>The hand of the end-to-end scenario: blinds 0.4 and 1, stacks of 8 big blinds\<close>

lemma replicate_4: "replicate 4 x = [x, x, x, x]"
  by (simp add: eval_nat_numeral)

lemma dealCards_eq:
  "k \<le> length cards \<Longrightarrow>
     dealCards cards (int k) = Inr (rev (drop (length cards - k) cards), take (length cards - k) cards)"
  using dealCards_total [of k cards] by auto

lemma shuffled_standard: "shuffled createStandardDeck"
  by (simp add: shuffled_def distinct_createStandardDeck)

lemma reachable_play: "reachable g s \<Longrightarrow> reachable g (state_after (play s as))"
proof (induction as arbitrary: s)
  case Nil
  then show ?case by simp
next
  case (Cons a as)
  have r: "reachable g (state_after (applyAction s a))" using Cons.prems by (rule reachable.step)
  show ?case
  proof (cases "applyAction s a")
    case (Returned s')
    then show ?thesis using Cons.IH [of s'] r by simp
  next
    case (Thrown e s')
    then show ?thesis using r by simp
  qed
qed

definition blinds_game :: "GameParameters \<Rightarrow> Game" where
  "blinds_game params = \<lparr>smallBlind = 2 / 5, bigBlind = 1, gameParams = params,
             gameStacks = [8, 8, 8, 8]\<rparr>"

lemma Game_ctor_blinds:
  "Game_ctor (2 / 5) 1 params [] = Inr g \<Longrightarrow> g = blinds_game params"
  by (auto simp: Game_ctor_def Let_def blinds_game_def NUM_PLAYERS_def STARTING_STACK_BB_def
      replicate_4 split: if_splits option.splits)

lemma Game_ctor_no_parameters:
  "Game_ctor (2 / 5) 1 no_parameters [] = Inr (blinds_game no_parameters)"
  by (simp add: Game_ctor_def validateConfiguration_def blinds_game_def NUM_PLAYERS_def
      STARTING_STACK_BB_def no_parameters_def replicate_4)

text \<open>The stakes table's entry for 10c/25c: rake 0.04, jackpot fee 0.04, payout 0.01 percent.\<close>

definition rake_parameters :: GameParameters where
  "rake_parameters = \<lparr>rake_per_hand = 1 / 25, jackpot_fee_per_hand = 1 / 25,
                       jackpot_payout_percentage = 1 / 10000\<rparr>"

lemma Game_ctor_rake_parameters:
  "Game_ctor (2 / 5) 1 rake_parameters [] = Inr (blinds_game rake_parameters)"
  by (simp add: Game_ctor_def validateConfiguration_def blinds_game_def NUM_PLAYERS_def
      STARTING_STACK_BB_def rake_parameters_def replicate_4)

definition after_two_folds :: "GameParameters \<Rightarrow> Card list \<Rightarrow> GameState" where
  "after_two_folds params d =
     \<lparr>game = blinds_game params, gameOver = False, nextPlayer = 0, pot = 7 / 5,
      initialStacks = [8, 8, 8, 8], playerStacks = [38 / 5, 7, 8, 8],
      folded = [False, False, True, True], allInPlayers = {}, deck = take 44 d,
      holeCards = rev (drop 44 d), communityCards = [], sidePots = []\<rparr>"

definition after_three_folds :: "GameParameters \<Rightarrow> Card list \<Rightarrow> GameState" where
  "after_three_folds params d =
     \<lparr>game = blinds_game params, gameOver = True, nextPlayer = 1, pot = 7 / 5,
      initialStacks = [8, 8, 8, 8], playerStacks = [38 / 5, 7, 8, 8],
      folded = [True, False, True, True], allInPlayers = {}, deck = take 39 d,
      holeCards = rev (drop 44 d), communityCards = rev (drop 39 (take 44 d)),
      sidePots = [(4 / 5, [1]), (3 / 5, [1])]\<rparr>"

lemma play_two_folds:
  assumes "length d = 52"
  shows "play (GameState_ctor (blinds_game params) d) [DEAL, FOLD, FOLD]
           = Returned (after_two_folds params d)"
proof -
  have d8: "dealCards d 8 = Inr (rev (drop 44 d), take 44 d)"
    using dealCards_eq [of 8 d] assms by simp
  have ne: "drop 44 d \<noteq> []" using assms by simp
  have a1: "advance_loop [False, False, True, False] 2 = 3"
    using advance_loop_next [of "[False, False, True, False]" 2] by simp
  have a2: "advance_loop [False, False, True, True] 3 = 0"
    using advance_loop_next [of "[False, False, True, True]" 3] by simp
  show ?thesis
    using ne
    by (simp add: GameState_ctor_def blinds_game_def after_two_folds_def applyAction_def
        isChanceNode_def dealHoleCards_def NUM_PLAYERS_def HOLE_CARDS_PER_PLAYER_def d8
        getCurrentPlayer_def getLegalActions_def Let_def advanceToNextPlayer_def
        shouldGameEnd_def getActivePlayerCount_def upt_0_4 a1 a2 replicate_4)
qed

lemma third_fold:
  assumes "length d = 52"
  shows "applyAction (after_two_folds params d) FOLD = Returned (after_three_folds params d)"
proof -
  have d5: "dealCards (take 44 d) 5 = Inr (rev (drop 39 (take 44 d)), take 39 d)"
    using dealCards_eq [of 5 "take 44 d"] assms by simp
  have ne: "drop 44 d \<noteq> []" using assms by simp
  have a: "advance_loop [True, False, True, True] 0 = 1"
    using advance_loop_next [of "[True, False, True, True]" 0] by simp
  have srt: "sort [(2 / 5 :: real, 0 :: nat), (1, 1)] = [(2 / 5, 0), (1, 1)]"
    by (simp add: less_eq_prod_def)
  show ?thesis
    using ne
    by (simp add: blinds_game_def after_two_folds_def after_three_folds_def applyAction_def
        isChanceNode_def getCurrentPlayer_def getLegalActions_def Let_def advanceToNextPlayer_def
        shouldGameEnd_def getActivePlayerCount_def NUM_PLAYERS_def upt_0_4 a
        handleGameEnd_def COMMUNITY_CARDS_def d5 calculateSidePots_def contribution_def srt)
qed

lemma play_three_folds:
  assumes "length d = 52"
  shows "play (GameState_ctor (blinds_game params) d) [DEAL, FOLD, FOLD, FOLD]
           = Returned (after_three_folds params d)"
proof -
  have "play (GameState_ctor (blinds_game params) d) ([DEAL, FOLD, FOLD] @ [FOLD])
      = (case play (GameState_ctor (blinds_game params) d) [DEAL, FOLD, FOLD] of
           Thrown e s' \<Rightarrow> Thrown e s' | Returned s' \<Rightarrow> play s' [FOLD])"
    by (simp split: outcome.splits)
  then show ?thesis
    using play_two_folds [OF assms, of params] third_fold [OF assms, of params] by simp
qed

lemma distribute_single:
  assumes "length (communityCards s) = 5" "\<not> folded s ! w"
  shows "distribute s ((amount, [w]) # rest) returns
           = distribute s rest (returns[w := returns ! w + amount])"
proof -
  obtain sc where "evaluateHand [holeCards s ! (w * 2), holeCards s ! (w * 2 + 1)] (communityCards s) = Inr sc"
    using evaluateHand_total [OF _ assms(1), of "[holeCards s ! (w * 2), holeCards s ! (w * 2 + 1)]"]
    by auto
  then show ?thesis
    using assms(2) by (simp add: sort_scores_def winners_of_def)
qed

lemma returns_three_folds:
  assumes "length d = 52"
  shows "getReturns (after_three_folds params d) = Inr ([- (2 / 5), 2 / 5, 0, 0], False)"
proof -
  have cc: "length (communityCards (after_three_folds params d)) = 5"
    using assms by (simp add: after_three_folds_def)
  have nf: "\<not> folded (after_three_folds params d) ! 1" by (simp add: after_three_folds_def)
  have sp: "sidePots (after_three_folds params d) = [(4 / 5, [1]), (3 / 5, [1])]"
    by (simp add: after_three_folds_def)
  have "distribute (after_three_folds params d) (sidePots (after_three_folds params d)) [0, 0, 0, 0]
      = Inr [0, 7 / 5, 0, 0]"
    unfolding sp distribute_single [OF cc nf] by simp
  then show ?thesis
    by (simp add: getReturns_def Let_def NUM_PLAYERS_def replicate_4 upt_0_4 contribution_def)
       (simp add: after_three_folds_def)
qed

lemma reachable_after_two_folds:
  assumes "shuffled d"
  shows "reachable (blinds_game params) (after_two_folds params d)"
  using reachable_play [OF reachable.initial [OF assms], of "blinds_game params" "[DEAL, FOLD, FOLD]"]
    play_two_folds [OF shuffled_length [OF assms], of params] by simp

lemma reachable_after_three_folds:
  assumes "shuffled d"
  shows "reachable (blinds_game params) (after_three_folds params d)"
  using reachable.step [OF reachable_after_two_folds [OF assms], of params FOLD]
    third_fold [OF shuffled_length [OF assms], of params] by simp

lemma valid_blinds_game: "valid_game (blinds_game params)"
  by (simp add: valid_game_def blinds_game_def)


subsection \<open>Claims about the game state\<close>

text \<open>
  Claim C8. In any state, an action outside \<^verbatim>\<open>getLegalActions\<close> makes \<^verbatim>\<open>applyAction\<close> throw
  \<^verbatim>\<open>std::invalid_argument\<close> and leaves the state exactly as it was; so does any action other
  than DEAL at a chance node, and any action on a terminal state. \<^verbatim>\<open>getReturns\<close> on a state
  that is not terminal throws \<^verbatim>\<open>std::runtime_error\<close>.
\<close>

theorem illegal_action_and_early_returns_throw:
  "(a \<notin> set (getLegalActions s) \<longrightarrow>
      (\<exists>msg. applyAction s a = Thrown (invalid_argument msg) s))
   \<and> (isChanceNode s \<and> a \<noteq> DEAL \<longrightarrow>
        applyAction s a = Thrown (invalid_argument ''Only DEAL action allowed at chance node'') s)
   \<and> (isTerminal s \<longrightarrow>
        applyAction s a = Thrown (invalid_argument ''Cannot apply action to terminal state'') s)
   \<and> (\<not> isTerminal s \<longrightarrow>
        getReturns s = Inl (runtime_error ''Cannot get returns for non-terminal state''))"
proof -
  have 1: "\<exists>msg. applyAction s a = Thrown (invalid_argument msg) s"
    if "a \<notin> set (getLegalActions s)"
    using illegal_action_thrown [OF that] by blast
  have 2: "applyAction s a = Thrown (invalid_argument ''Only DEAL action allowed at chance node'') s"
    if "isChanceNode s \<and> a \<noteq> DEAL"
    using that by (simp add: applyAction_def)
  have 3: "applyAction s a = Thrown (invalid_argument ''Cannot apply action to terminal state'') s"
    if "isTerminal s"
    using that by (simp add: applyAction_def isTerminal_def isChanceNode_def)
  show ?thesis
    using 1 2 3 getReturns_not_terminal [of s] by blast
qed

theorem illegal_action_and_early_returns_throw_witness:
  "applyAction (GameState_ctor (blinds_game no_parameters) createStandardDeck) FOLD
     = Thrown (invalid_argument ''Only DEAL action allowed at chance node'')
         (GameState_ctor (blinds_game no_parameters) createStandardDeck)
   \<and> getReturns (GameState_ctor (blinds_game no_parameters) createStandardDeck)
     = Inl (runtime_error ''Cannot get returns for non-terminal state'')
   \<and> applyAction (after_three_folds no_parameters createStandardDeck) ALL_IN
     = Thrown (invalid_argument ''Cannot apply action to terminal state'')
         (after_three_folds no_parameters createStandardDeck)
   \<and> applyAction (after_two_folds no_parameters createStandardDeck) DEAL
     = Thrown (invalid_argument ''Illegal action'')
         (after_two_folds no_parameters createStandardDeck)"
proof -
  let ?s0 = "GameState_ctor (blinds_game no_parameters) createStandardDeck"
  let ?s2 = "after_two_folds no_parameters createStandardDeck"
  let ?s3 = "after_three_folds no_parameters createStandardDeck"
  have c: "isChanceNode ?s0 \<and> FOLD \<noteq> DEAL" "\<not> isTerminal ?s0"
    by (simp_all add: isChanceNode_def isTerminal_def GameState_ctor_def Let_def)
  have t: "isTerminal ?s3" by (simp add: isTerminal_def after_three_folds_def)
  have l: "DEAL \<notin> set (getLegalActions ?s2)"
    by (simp add: getLegalActions_def isChanceNode_def getCurrentPlayer_def after_two_folds_def
        length_createStandardDeck)
  have i: "applyAction ?s2 DEAL = Thrown (invalid_argument ''Illegal action'') ?s2"
    using illegal_action_thrown [OF l]
    by (simp add: isChanceNode_def after_two_folds_def length_createStandardDeck)
  show ?thesis
    using illegal_action_and_early_returns_throw [of FOLD ?s0]
      illegal_action_and_early_returns_throw [of ALL_IN ?s3] c t i
    by simp
qed

text \<open>
  Claim C2, as stated, fails at its first step: after DEAL, FOLD by seat 2 and FOLD by seat 3 the
  hand is not over. Seats 0 and 1 have not folded and neither is all-in, so seat 0 (the small
  blind) is to act, with FOLD and ALL_IN to choose from.
\<close>

theorem two_folds_not_terminal_counterexample:
  "(case play (GameState_ctor (blinds_game no_parameters) createStandardDeck) [DEAL, FOLD, FOLD] of
      Returned s \<Rightarrow>
        \<not> isTerminal s \<and> getCurrentPlayer s = 0 \<and> getLegalActions s = [FOLD, ALL_IN]
    | Thrown e s \<Rightarrow> False)"
  unfolding play_two_folds [OF length_createStandardDeck]
  by (simp add: after_two_folds_def isTerminal_def getCurrentPlayer_def getLegalActions_def
        isChanceNode_def length_createStandardDeck)

text \<open>
  Claim C2, amended. With blinds 0.4 and 1 (stacks of 8 big blinds, any rake and jackpot
  parameters) and any shuffled deck: after DEAL, FOLD, FOLD the state is not terminal, seat 0
  is to act and no community card is dealt. If seat 0 folds too, the state is terminal, five
  community cards are dealt, and \<^verbatim>\<open>getReturns\<close> gives seat 1 exactly +0.4 (the small blind;
  \<^verbatim>\<open>GameState\<close> takes no rake and no jackpot fee), seat 0 exactly -0.4, and seats 2 and 3
  zero, without the zero-sum warning.
\<close>

theorem fold_around_scenario:
  assumes "Game_ctor (2 / 5) 1 params [] = Inr g" and "shuffled d"
  shows "\<exists>s2 s3. play (GameState_ctor g d) [DEAL, FOLD, FOLD] = Returned s2
           \<and> \<not> isTerminal s2 \<and> getCurrentPlayer s2 = 0 \<and> communityCards s2 = []
           \<and> applyAction s2 FOLD = Returned s3
           \<and> isTerminal s3 \<and> length (communityCards s3) = 5
           \<and> getReturns s3 = Inr ([- (2 / 5), 2 / 5, 0, 0], False)"
proof -
  have g: "g = blinds_game params" using assms(1) by (rule Game_ctor_blinds)
  have l: "length d = 52" using assms(2) by (rule shuffled_length)
  have 1: "play (GameState_ctor g d) [DEAL, FOLD, FOLD] = Returned (after_two_folds params d)"
    unfolding g using l by (rule play_two_folds)
  have 2: "\<not> isTerminal (after_two_folds params d)" "getCurrentPlayer (after_two_folds params d) = 0"
    "communityCards (after_two_folds params d) = []"
    by (simp_all add: after_two_folds_def isTerminal_def getCurrentPlayer_def)
  have 3: "applyAction (after_two_folds params d) FOLD = Returned (after_three_folds params d)"
    using l by (rule third_fold)
  have 4: "isTerminal (after_three_folds params d)"
    "length (communityCards (after_three_folds params d)) = 5"
    using l by (simp_all add: after_three_folds_def isTerminal_def)
  have 5: "getReturns (after_three_folds params d) = Inr ([- (2 / 5), 2 / 5, 0, 0], False)"
    using l by (rule returns_three_folds)
  show ?thesis using 1 2 3 4 5 by blast
qed

theorem fold_around_scenario_witness:
  "play (GameState_ctor (blinds_game no_parameters) createStandardDeck) [DEAL, FOLD, FOLD]
     = Returned (after_two_folds no_parameters createStandardDeck)
   \<and> applyAction (after_two_folds no_parameters createStandardDeck) FOLD
     = Returned (after_three_folds no_parameters createStandardDeck)
   \<and> getReturns (after_three_folds no_parameters createStandardDeck)
     = Inr ([- (2 / 5), 2 / 5, 0, 0], False)"
proof -
  obtain s2 s3 where s: "play (GameState_ctor (blinds_game no_parameters) createStandardDeck)
        [DEAL, FOLD, FOLD] = Returned s2"
      "applyAction s2 FOLD = Returned s3"
      "getReturns s3 = Inr ([- (2 / 5), 2 / 5, 0, 0], False)"
    using fold_around_scenario [OF Game_ctor_no_parameters shuffled_standard] by blast
  have e2: "s2 = after_two_folds no_parameters createStandardDeck"
    using s(1) unfolding play_two_folds [OF length_createStandardDeck] by simp
  have "applyAction (after_two_folds no_parameters createStandardDeck) FOLD = Returned s3"
    using s(2) unfolding e2 .
  then have e3: "s3 = after_three_folds no_parameters createStandardDeck"
    unfolding third_fold [OF length_createStandardDeck] by simp
  show ?thesis using s unfolding e2 e3 by simp
qed


lemma terminal_side_pots_total:
  assumes vg: "valid_game g" and big: "\<forall>i<4. bigBlind g \<le> gameStacks g ! i"
    and r: "reachable g s" and over: "gameOver s"
  shows "pot_total (sidePots s) = pot s"
proof -
  have inv: "table_inv g s" using vg r by (rule reachable_table_inv)
  have ci: "chips_inv g s" and ki: "cards_inv s" using inv by (simp_all add: table_inv_def)
  have h: "holeCards s \<noteq> []" using ki over by (auto simp: cards_inv_def split: if_splits)
  have sp: "sidePots s = sidePots (calculateSidePots s)"
    using ki over h by (simp add: cards_inv_def)
  have "pot_total (sidePots (calculateSidePots s))
      = contribution s 0 + contribution s 1 + contribution s 2 + contribution s 3"
    using contributions_nonneg [OF vg ci] terminal_top_contributor [OF vg big inv over]
    by (rule calculateSidePots_total)
  then show ?thesis using sp ci by (simp add: chips_inv_def)
qed

definition short_game :: Game where
  "short_game = \<lparr>smallBlind = 2 / 5, bigBlind = 1, gameParams = no_parameters,
                  gameStacks = [8, 8, 1 / 2, 8]\<rparr>"

lemma Game_ctor_short_game:
  "Game_ctor (2 / 5) 1 no_parameters [8, 8, 1 / 2, 8] = Inr short_game"
  by (simp add: Game_ctor_def validateConfiguration_def short_game_def NUM_PLAYERS_def
      STARTING_STACK_BB_def no_parameters_def)

text \<open>
  The side pots as the rules describe them, from the contributions and the folds alone. The
  levels are the distinct positive contributions, in ascending order. The layer of a level
  holds, from every seat whose contribution reaches the level, the part of it between the
  level below and this one; the seats that can win it are those that reach the level and
  have not folded. A layer that no seat can win is not a side pot.
\<close>

definition contribution_levels :: "GameState \<Rightarrow> real list" where
  "contribution_levels s =
     sort (remdups (filter (\<lambda>c. 0 < c) (map (contribution s) [0..<NUM_PLAYERS])))"

definition seats_reaching :: "GameState \<Rightarrow> real \<Rightarrow> nat list" where
  "seats_reaching s level = filter (\<lambda>i. level \<le> contribution s i) [0..<NUM_PLAYERS]"

definition live_seats_reaching :: "GameState \<Rightarrow> real \<Rightarrow> nat list" where
  "live_seats_reaching s level = filter (\<lambda>i. \<not> folded s ! i) (seats_reaching s level)"

fun layers :: "GameState \<Rightarrow> real \<Rightarrow> real list \<Rightarrow> (real \<times> nat list) list" where
  "layers s below [] = []"
| "layers s below (level # higher) =
     (if live_seats_reaching s level = [] then []
      else [((level - below) * real (length (seats_reaching s level)),
             live_seats_reaching s level)])
     @ layers s level higher"

definition side_pot_layers :: "GameState \<Rightarrow> (real \<times> nat list) list" where
  "side_pot_layers s = layers s 0 (contribution_levels s)"

definition levels_above :: "real \<Rightarrow> real list \<Rightarrow> real list" where
  "levels_above below xs = remdups_adj (filter (\<lambda>l. below < l) xs)"

lemma remdups_adj_sorted_head:
  fixes a :: real
  shows "sorted (a # xs) \<Longrightarrow> remdups_adj (a # xs) = a # remdups_adj (filter (\<lambda>l. a < l) xs)"
proof (induction xs)
  case Nil
  then show ?case by simp
next
  case (Cons x xs)
  show ?case
  proof (cases "x = a")
    case True
    have "sorted (a # xs)" using Cons.prems by simp
    then show ?thesis using Cons.IH True by simp
  next
    case False
    then have lt: "a < x" using Cons.prems by simp
    have "\<forall>l\<in>set xs. a < l" using Cons.prems lt by auto
    then have "filter (\<lambda>l. a < l) xs = xs" by simp
    then show ?thesis using lt False by simp
  qed
qed

lemma levels_above_gt:
  assumes "sorted (a # xs)" "below < a"
  shows "levels_above below (a # xs) = a # levels_above a xs"
proof -
  have "\<forall>l\<in>set xs. below < l" using assms by auto
  then have "filter (\<lambda>l. below < l) xs = xs" by simp
  then show ?thesis
    using assms(2) remdups_adj_sorted_head [OF assms(1)] by (simp add: levels_above_def)
qed

lemma levels_above_eq: "levels_above a (a # xs) = levels_above a xs"
  by (simp add: levels_above_def)

lemma distinct_remdups_adj_sorted:
  fixes xs :: "real list"
  shows "sorted xs \<Longrightarrow> distinct (remdups_adj xs)"
proof (induction xs rule: remdups_adj.induct)
  case 1
  then show ?case by simp
next
  case (2 x)
  then show ?case by simp
next
  case (3 x y xs)
  show ?case
  proof (cases "x = y")
    case True
    then show ?thesis using 3 by simp
  next
    case False
    then have "x < y" using 3(3) by simp
    then have "x \<notin> set (y # xs)" using 3(3) by auto
    then have "x \<notin> set (remdups_adj (y # xs))" unfolding remdups_adj_set .
    moreover have "distinct (remdups_adj (y # xs))" using 3 False by simp
    ultimately show ?thesis using False by simp
  qed
qed

lemma sidePots_loop_layers:
  assumes "sorted (map fst cs)" "distinct (map snd cs)"
    and "\<forall>c\<in>set cs. fst c = contribution s (snd c) \<and> snd c < 4"
    and "\<forall>c\<in>set cs. below \<le> fst c"
    and "\<forall>i<4. i \<notin> snd ` set cs \<longrightarrow> contribution s i \<le> below"
  shows "sidePots_loop cs below (filter (\<lambda>i. i \<in> snd ` set cs \<and> \<not> folded s ! i) [0..<4])
            (filter (\<lambda>i. i \<in> snd ` set cs) [0..<4]) pots
         = pots @ layers s below (levels_above below (map fst cs))"
  using assms
proof (induction cs arbitrary: below pots)
  case Nil
  then show ?case by (simp add: levels_above_def)
next
  case (Cons c rest)
  obtain amount player where c: "c = (amount, player)" by (cases c)
  define R where "R = snd ` set rest"
  have pR: "player \<notin> R" using Cons.prems(2) by (auto simp: c R_def)
  have Rc: "snd ` set (c # rest) = insert player R" by (simp add: c R_def)
  have am: "amount = contribution s player" "player < 4"
    using Cons.prems(3) by (simp_all add: c)
  have le: "below \<le> amount" using Cons.prems(4) by (simp add: c)
  have srt: "sorted (map fst rest)" "\<forall>c'\<in>set rest. amount \<le> fst c'"
    using Cons.prems(1) by (auto simp: c)
  have rm: "removeAll player (filter (\<lambda>i. i \<in> insert player R \<and> Q i) [0..<4])
              = filter (\<lambda>i. i \<in> R \<and> Q i) [0..<4]" for Q
    unfolding removeAll_filter_not_eq filter_filter
    by (rule filter_cong) (use pR in auto)
  have rm': "removeAll player (filter (\<lambda>i. i \<in> insert player R) [0..<4])
              = filter (\<lambda>i. i \<in> R) [0..<4]"
    using rm [of "\<lambda>i. True"] by simp
  have out: "\<forall>i<4. i \<notin> snd ` set rest \<longrightarrow> contribution s i \<le> amount"
  proof (intro allI impI)
    fix i :: nat assume i: "i < 4" "i \<notin> snd ` set rest"
    show "contribution s i \<le> amount"
    proof (cases "i = player")
      case True
      then show ?thesis using am by simp
    next
      case False
      then have "i \<notin> snd ` set (c # rest)" using i(2) by (simp add: c)
      then have "contribution s i \<le> below" using Cons.prems(5) i(1) by blast
      then show ?thesis using le by simp
    qed
  qed
  have ih: "sidePots_loop rest amount (filter (\<lambda>i. i \<in> R \<and> \<not> folded s ! i) [0..<4])
              (filter (\<lambda>i. i \<in> R) [0..<4]) pots'
            = pots' @ layers s amount (levels_above amount (map fst rest))" for pots'
    unfolding R_def
    using srt(1) _ _ srt(2) out
  proof (rule Cons.IH)
    show "distinct (map snd rest)" using Cons.prems(2) by simp
    show "\<forall>c\<in>set rest. fst c = contribution s (snd c) \<and> snd c < 4"
      using Cons.prems(3) by simp
  qed
  have reach: "seats_reaching s amount = filter (\<lambda>i. i \<in> insert player R) [0..<4]"
    if gt: "below < amount"
    unfolding seats_reaching_def NUM_PLAYERS_def
  proof (rule filter_cong [OF refl])
    fix i assume "i \<in> set [0..<4]"
    then have i: "i < 4" by simp
    show "(amount \<le> contribution s i) = (i \<in> insert player R)"
    proof
      assume a: "amount \<le> contribution s i"
      show "i \<in> insert player R"
      proof (rule ccontr)
        assume "i \<notin> insert player R"
        then have "contribution s i \<le> below" using Cons.prems(5) i unfolding Rc by blast
        then show False using a gt by simp
      qed
    next
      assume "i \<in> insert player R"
      then consider "i = player" | "i \<in> R" by blast
      then show "amount \<le> contribution s i"
      proof cases
        case 1
        then show ?thesis using am by simp
      next
        case 2
        then obtain c' where c': "c' \<in> set rest" "snd c' = i" by (auto simp: R_def)
        have "fst c' = contribution s i" using Cons.prems(3) c' by auto
        then show ?thesis using srt(2) c'(1) by auto
      qed
    qed
  qed
  show ?case
  proof (cases "below < amount")
    case True
    have live: "live_seats_reaching s amount
                  = filter (\<lambda>i. i \<in> insert player R \<and> \<not> folded s ! i) [0..<4]"
      unfolding live_seats_reaching_def reach [OF True] filter_filter
      by (rule filter_cong) auto
    have pl: "player \<in> set (filter (\<lambda>i. i \<in> insert player R) [0..<4])"
      using am(2) by simp
    have len: "0 < length (filter (\<lambda>i. i \<in> insert player R) [0..<4])"
      using pl by (metis length_pos_if_in_set)
    have inc: "0 < (amount - below) * real (length (filter (\<lambda>i. i \<in> insert player R) [0..<4]))"
      using True len by simp
    have lv: "levels_above below (map fst (c # rest)) = amount # levels_above amount (map fst rest)"
      using levels_above_gt [of amount "map fst rest" below] Cons.prems(1) True by (simp add: c)
    show ?thesis
      unfolding Rc lv
      by (simp only: c sidePots_loop.simps Let_def rm rm' ih layers.simps live reach [OF True])
         (use True inc in auto)
  next
    case False
    then have eq: "amount = below" using le by simp
    have lv: "levels_above below (map fst (c # rest)) = levels_above amount (map fst rest)"
      using levels_above_eq [of amount "map fst rest"] by (simp add: c eq)
    show ?thesis
      unfolding Rc lv
      by (simp only: c sidePots_loop.simps Let_def rm rm' ih) (use eq in simp)
  qed
qed


lemma levels_above_sorted_pairs:
  fixes xs :: "(real \<times> nat) list"
  assumes "\<forall>c\<in>set xs. 0 < fst c"
  shows "levels_above 0 (map fst (sort xs)) = sort (remdups (map fst xs))"
proof -
  have pos: "\<forall>l\<in>set (map fst (sort xs)). 0 < l" using assms by simp
  then have f: "filter (\<lambda>l. 0 < l) (map fst (sort xs)) = map fst (sort xs)"
    by (simp only: filter_True)
  have s1: "sorted (map fst (sort xs))" by (rule sorted_fst_of_sorted) simp
  have "sorted (remdups_adj (map fst (sort xs)))" using s1 by (rule sorted_remdups_adj)
  moreover have "distinct (remdups_adj (map fst (sort xs)))"
    using s1 by (rule distinct_remdups_adj_sorted)
  moreover have "sorted (sort (remdups (map fst xs)))" by simp
  moreover have "distinct (sort (remdups (map fst xs)))" by simp
  moreover have "set (remdups_adj (map fst (sort xs))) = set (sort (remdups (map fst xs)))"
    by (simp add: remdups_adj_set)
  ultimately have "remdups_adj (map fst (sort xs)) = sort (remdups (map fst xs))"
    by (rule sorted_distinct_set_unique)
  then show ?thesis by (simp add: levels_above_def f)
qed

lemma calculateSidePots_layers:
  assumes live: "\<forall>i<4. \<not> folded s ! i \<longrightarrow> 0 < contribution s i"
  shows "sidePots (calculateSidePots s) = side_pot_layers s"
proof -
  define L where "L = filter (\<lambda>i. contribution s i > 0) [0..<4]"
  define xs where "xs = map (\<lambda>i. (contribution s i, i)) L"
  define elig where "elig = filter (\<lambda>i. \<not> folded s ! i) [0..<4]"
  have sp: "sidePots (calculateSidePots s) = sidePots_loop (sort xs) 0 elig L []"
    by (simp add: calculateSidePots_def Let_def NUM_PLAYERS_def xs_def L_def elig_def)
  have dL: "distinct L" by (simp add: L_def)
  have sndxs: "map snd xs = L" by (simp add: xs_def comp_def)
  have dxs: "distinct xs" using dL by (simp add: xs_def distinct_map inj_on_def)
  have inj: "inj_on snd (set xs)" by (auto simp: xs_def inj_on_def)
  have a1: "distinct (map snd (sort xs))"
    using dxs inj by (simp add: distinct_map)
  have R: "snd ` set (sort xs) = set L"
    using sndxs by (metis set_map set_sort)
  have a2: "sorted (map fst (sort xs))" by (rule sorted_fst_of_sorted) simp
  have a3: "\<forall>c\<in>set (sort xs). fst c = contribution s (snd c) \<and> snd c < 4"
    by (auto simp: xs_def L_def)
  have a4: "\<forall>c\<in>set (sort xs). 0 \<le> fst c" by (auto simp: xs_def L_def)
  have a5: "\<forall>i<4. i \<notin> snd ` set (sort xs) \<longrightarrow> contribution s i \<le> 0"
    unfolding R by (auto simp: L_def)
  have e1: "filter (\<lambda>i. i \<in> snd ` set (sort xs)) [0..<4] = L"
    unfolding R L_def by (rule filter_cong) auto
  have e2: "filter (\<lambda>i. i \<in> snd ` set (sort xs) \<and> \<not> folded s ! i) [0..<4] = elig"
    unfolding R L_def elig_def by (rule filter_cong) (use live in auto)
  have pos: "\<forall>c\<in>set xs. 0 < fst c" by (auto simp: xs_def L_def)
  have lv: "levels_above 0 (map fst (sort xs)) = contribution_levels s"
    unfolding levels_above_sorted_pairs [OF pos]
    by (simp add: contribution_levels_def xs_def L_def NUM_PLAYERS_def comp_def filter_map)
  have "sidePots_loop (sort xs) 0 elig L [] = [] @ layers s 0 (levels_above 0 (map fst (sort xs)))"
    using sidePots_loop_layers [OF a2 a1 a3 a4 a5, of "[]"] unfolding e1 e2 .
  then show ?thesis by (simp add: sp lv side_pot_layers_def)
qed

lemma terminal_live_contribution:
  assumes vg: "valid_game g" and inv: "table_inv g s" and over: "gameOver s"
  shows "\<forall>i<4. \<not> folded s ! i \<longrightarrow> 0 < contribution s i"
proof (intro allI impI)
  fix i :: nat assume i: "i < 4" and nf: "\<not> folded s ! i"
  have ci: "chips_inv g s" and oi: "order_inv s" and te: "gameOver s = shouldGameEnd s"
    using inv by (simp_all add: table_inv_def)
  have st: "0 < gameStacks g ! i"
    using vg i by (simp add: valid_game_def list_all_length)
  show "0 < contribution s i"
  proof (cases "i \<in> allInPlayers s")
    case True
    then show ?thesis using chips_contribution [OF ci i] st by simp
  next
    case False
    then have na: "\<not> acted s i" using nf by (simp add: acted_def)
    have "\<not> (acted s 0 \<and> acted s 1 \<and> acted s 2 \<and> acted s 3)"
      using na i lt4_cases [of i] by auto
    then have one: "activeCount (folded s) \<le> 1"
      using over te unfolding shouldGameEnd_nth by blast
    have only: "j = i" if j: "j < 4" "\<not> folded s ! j" for j
      using one nf i j lt4_cases [of i] lt4_cases [of j]
      by (auto simp: activeCount_nth split: if_splits)
    have "allInPlayers s = {}"
    proof (rule ccontr)
      assume "allInPlayers s \<noteq> {}"
      then obtain j where j: "j \<in> allInPlayers s" by blast
      then have j4: "j < 4" using ci by (auto simp: chips_inv_def)
      then have "\<not> folded s ! j" using ci j by (auto simp: chips_inv_def)
      then have "j = i" using only j4 by simp
      then show False using j False by simp
    qed
    then have "\<not> folded s ! 1" using oi by (simp add: order_inv_def)
    then have "i = 1" using only [of 1] by simp
    then show ?thesis
      using chips_contribution [OF ci i] False vg by (simp add: blind_def valid_game_def)
  qed
qed

lemma end_of_hand_cards:
  assumes inv: "cards_inv s" and live: "\<not> gameOver s"
    and over: "gameOver (state_after (applyAction s a))"
  shows "communityCards (state_after (applyAction s a)) = rev (drop (length (deck s) - 5) (deck s))"
    and "deck (state_after (applyAction s a)) = take (length (deck s) - 5) (deck s)"
    and "holeCards (state_after (applyAction s a)) = holeCards s"
    and "length (deck s) = 44"
proof -
  have legal: "a \<in> set (getLegalActions s)"
  proof (rule ccontr)
    assume "a \<notin> set (getLegalActions s)"
    then have "state_after (applyAction s a) = s" by (simp add: illegal_action_thrown)
    then show False using live over by simp
  qed
  have nc: "\<not> isChanceNode s"
  proof
    assume c: "isChanceNode s"
    then have "a = DEAL" using legal by (simp add: getLegalActions_def)
    then show False using deal_result(8) [OF c inv] live over by simp
  qed
  then have h: "holeCards s \<noteq> []" using live by (simp add: isChanceNode_def)
  have k: "length (deck s) = 44" "communityCards s = []"
    using inv h live by (simp_all add: cards_inv_def)
  define s2 where "s2 = advanceToNextPlayer (after_decision s a)"
  have f2: "deck s2 = deck s" "communityCards s2 = []" "gameOver s2 = False" "holeCards s2 = holeCards s"
    using k live by (simp_all add: s2_def advanceToNextPlayer_fields after_decision_cards)
  have ap: "applyAction s a
      = (if shouldGameEnd s2 then handleGameEnd (s2\<lparr>gameOver := True\<rparr>) else Returned s2)"
    unfolding applyAction_decision [OF nc live legal] s2_def by (simp add: Let_def)
  have e: "shouldGameEnd s2"
  proof (rule ccontr)
    assume "\<not> shouldGameEnd s2"
    then have "state_after (applyAction s a) = s2" using ap by simp
    then show False using over f2(3) by simp
  qed
  obtain dealt rest where d: "dealCards (deck s) (int 5) = Inr (dealt, rest)"
      "rest = take (length (deck s) - 5) (deck s)"
      "dealt = rev (drop (length (deck s) - 5) (deck s))"
    using dealCards_total [of 5 "deck s"] k(1) by auto
  have "handleGameEnd (s2\<lparr>gameOver := True\<rparr>)
      = Returned (calculateSidePots (s2\<lparr>gameOver := True, communityCards := dealt, deck := rest\<rparr>))"
    using d(1) f2 by (simp add: handleGameEnd_def COMMUNITY_CARDS_def)
  then have s': "state_after (applyAction s a)
      = calculateSidePots (s2\<lparr>gameOver := True, communityCards := dealt, deck := rest\<rparr>)"
    using ap e by simp
  show "communityCards (state_after (applyAction s a)) = rev (drop (length (deck s) - 5) (deck s))"
    unfolding s' by (simp add: calculateSidePots_fields d(3))
  show "deck (state_after (applyAction s a)) = take (length (deck s) - 5) (deck s)"
    unfolding s' by (simp add: calculateSidePots_fields d(2))
  show "holeCards (state_after (applyAction s a)) = holeCards s"
    unfolding s' by (simp add: calculateSidePots_fields f2)
  show "length (deck s) = 44" by (rule k(1))
qed

definition uneven_game :: Game where
  "uneven_game = \<lparr>smallBlind = 2 / 5, bigBlind = 1, gameParams = no_parameters,
                   gameStacks = [8, 8, 4, 8]\<rparr>"

lemma Game_ctor_uneven_game:
  "Game_ctor (2 / 5) 1 no_parameters [8, 8, 4, 8] = Inr uneven_game"
  by (simp add: Game_ctor_def validateConfiguration_def uneven_game_def NUM_PLAYERS_def
      STARTING_STACK_BB_def no_parameters_def)

text \<open>
  Claim C3. Whatever state a hand has reached and whatever action is applied to it, the state
  \<^verbatim>\<open>applyAction\<close> leaves behind is terminal exactly when at most one seat has not folded or
  every seat that has not folded is all-in. On the step that makes the state terminal the call
  returns normally; the community cards, none before, are the five cards at the back of the
  deck, the last card first, and the deck is left without them; the side pots are those
  \<^verbatim>\<open>calculateSidePots\<close> computes from the final stacks and folds, which for a game the
  constructor accepts are the layers of contribution of the final state
  (\<open>side_pot_layers\<close>), adding up to the pot when every starting stack is at least the big
  blind.
\<close>

theorem terminal_iff_and_end_of_hand:
  assumes "reachable g s" and "s' = state_after (applyAction s a)"
  shows "(isTerminal s' \<longleftrightarrow>
            getActivePlayerCount s' \<le> 1
            \<or> list_all (\<lambda>i. folded s' ! i \<or> i \<in> allInPlayers s') [0..<NUM_PLAYERS])
       \<and> (\<not> isTerminal s \<and> isTerminal s' \<longrightarrow>
            thrown (applyAction s a) = None
            \<and> communityCards s = [] \<and> length (communityCards s') = 5
            \<and> communityCards s' = rev (drop (length (deck s) - 5) (deck s))
            \<and> deck s' = take (length (deck s) - 5) (deck s)
            \<and> sidePots s' = sidePots (calculateSidePots s')
            \<and> (Game_ctor sb bb params stacksBB = Inr g \<longrightarrow>
                 sidePots s' = side_pot_layers s'
                 \<and> ((\<forall>i<4. bigBlind g \<le> gameStacks g ! i) \<longrightarrow>
                       pot_total (sidePots s') = pot s')))"
proof -
  have r': "reachable g s'" unfolding assms(2) using assms(1) by (rule reachable.step)
  have "gameOver s' = shouldGameEnd s'" using r' by (rule reachable_terminal_iff)
  then have a: "isTerminal s' \<longleftrightarrow>
            getActivePlayerCount s' \<le> 1
            \<or> list_all (\<lambda>i. folded s' ! i \<or> i \<in> allInPlayers s') [0..<NUM_PLAYERS]"
    by (auto simp: isTerminal_def shouldGameEnd_def list_all_iff list_ex_iff)
  have b: "thrown (applyAction s a) = None
            \<and> communityCards s = [] \<and> length (communityCards s') = 5
            \<and> communityCards s' = rev (drop (length (deck s) - 5) (deck s))
            \<and> deck s' = take (length (deck s) - 5) (deck s)
            \<and> sidePots s' = sidePots (calculateSidePots s')
            \<and> (Game_ctor sb bb params stacksBB = Inr g \<longrightarrow>
                 sidePots s' = side_pot_layers s'
                 \<and> ((\<forall>i<4. bigBlind g \<le> gameStacks g ! i) \<longrightarrow>
                       pot_total (sidePots s') = pot s'))"
    if t: "\<not> isTerminal s" "isTerminal s'"
  proof -
    have k: "cards_inv s" using assms(1) by (rule reachable_cards_inv)
    have k': "cards_inv s'" using r' by (rule reachable_cards_inv)
    have live: "\<not> gameOver s" and over: "gameOver (state_after (applyAction s a))"
      using t by (simp_all add: isTerminal_def assms(2))
    have legal: "a \<in> set (getLegalActions s)"
    proof (rule ccontr)
      assume "a \<notin> set (getLegalActions s)"
      then have "s' = s" unfolding assms(2) by (simp add: illegal_action_thrown)
      then show False using t by simp
    qed
    have th: "thrown (applyAction s a) = None"
      using cards_inv_step [OF k, of a] legal by simp
    have h': "holeCards s' \<noteq> []"
      using k' t(2) by (auto simp: cards_inv_def isTerminal_def split: if_splits)
    have c5: "length (communityCards s') = 5" "sidePots s' = sidePots (calculateSidePots s')"
      using k' t(2) h' by (simp_all add: cards_inv_def isTerminal_def)
    have c0: "communityCards s = []"
      using k t(1) by (auto simp: cards_inv_def isTerminal_def split: if_splits)
    have cc: "communityCards s' = rev (drop (length (deck s) - 5) (deck s))"
      "deck s' = take (length (deck s) - 5) (deck s)"
      unfolding assms(2) using k live over by (rule end_of_hand_cards)+
    have sp: "sidePots s' = side_pot_layers s'
                 \<and> ((\<forall>i<4. bigBlind g \<le> gameStacks g ! i) \<longrightarrow>
                       pot_total (sidePots s') = pot s')"
      if gc: "Game_ctor sb bb params stacksBB = Inr g"
    proof -
      have vg: "valid_game g" using gc by (rule Game_ctor_valid)
      have inv: "table_inv g s'" using vg r' by (rule reachable_table_inv)
      have o': "gameOver s'" using t(2) by (simp add: isTerminal_def)
      have "sidePots (calculateSidePots s') = side_pot_layers s'"
        using terminal_live_contribution [OF vg inv o'] by (rule calculateSidePots_layers)
      then have 1: "sidePots s' = side_pot_layers s'" using c5(2) by simp
      have 2: "pot_total (sidePots s') = pot s'" if "\<forall>i<4. bigBlind g \<le> gameStacks g ! i"
        using vg that r' o' by (rule terminal_side_pots_total)
      show ?thesis using 1 2 by blast
    qed
    show ?thesis using th c0 c5 cc sp by blast
  qed
  show ?thesis using a b by blast
qed

theorem terminal_iff_and_end_of_hand_witness:
  "Game_ctor (2 / 5) 1 no_parameters [8, 8, 4, 8] = Inr uneven_game
   \<and> \<not> isTerminal (state_after (play (GameState_ctor uneven_game createStandardDeck)
                                  [DEAL, ALL_IN, ALL_IN, FOLD]))
   \<and> isTerminal (state_after (play (GameState_ctor uneven_game createStandardDeck)
                                  [DEAL, ALL_IN, ALL_IN, FOLD, ALL_IN]))
   \<and> folded (state_after (play (GameState_ctor uneven_game createStandardDeck)
                                  [DEAL, ALL_IN, ALL_IN, FOLD, ALL_IN]))
       = [True, False, False, False]
   \<and> communityCards (state_after (play (GameState_ctor uneven_game createStandardDeck)
                                  [DEAL, ALL_IN, ALL_IN, FOLD, ALL_IN]))
       = rev (drop 39 (take 44 createStandardDeck))
   \<and> side_pot_layers (state_after (play (GameState_ctor uneven_game createStandardDeck)
                                  [DEAL, ALL_IN, ALL_IN, FOLD, ALL_IN]))
       = [(8 / 5, [1, 2, 3]), (54 / 5, [1, 2, 3]), (8, [1, 3])]
   \<and> sidePots (state_after (play (GameState_ctor uneven_game createStandardDeck)
                                  [DEAL, ALL_IN, ALL_IN, FOLD, ALL_IN]))
       = [(8 / 5, [1, 2, 3]), (54 / 5, [1, 2, 3]), (8, [1, 3])]
   \<and> pot (state_after (play (GameState_ctor uneven_game createStandardDeck)
                                  [DEAL, ALL_IN, ALL_IN, FOLD, ALL_IN])) = 102 / 5"
proof -
  define s where "s = state_after (play (GameState_ctor uneven_game createStandardDeck)
                                     [DEAL, ALL_IN, ALL_IN, FOLD])"
  define s' where "s' = state_after (play (GameState_ctor uneven_game createStandardDeck)
                                     [DEAL, ALL_IN, ALL_IN, FOLD, ALL_IN])"
  have r: "reachable uneven_game s"
    unfolding s_def using reachable.initial [OF shuffled_standard] by (rule reachable_play)
  have st: "s' = state_after (applyAction s ALL_IN)"
    unfolding s_def s'_def by code_simp
  have n: "\<not> isTerminal s" unfolding s_def by code_simp
  have t: "isTerminal s'" unfolding s'_def by code_simp
  have f: "folded s' = [True, False, False, False]" unfolding s'_def by code_simp
  have d: "deck s = take 44 createStandardDeck" unfolding s_def by code_simp
  have l: "side_pot_layers s' = [(8 / 5, [1, 2, 3]), (54 / 5, [1, 2, 3]), (8, [1, 3])]"
    unfolding s'_def by code_simp
  have big: "\<forall>i<4. bigBlind uneven_game \<le> gameStacks uneven_game ! i"
    by (simp add: uneven_game_def all_lt4)
  note tm = terminal_iff_and_end_of_hand [OF r st, of "2 / 5" 1 no_parameters "[8, 8, 4, 8]"]
  have c: "communityCards s' = rev (drop (length (deck s) - 5) (deck s))"
    and sp: "sidePots s' = side_pot_layers s'"
    and pt: "pot_total (sidePots s') = pot s'"
    using tm n t Game_ctor_uneven_game big by blast+
  have c': "communityCards s' = rev (drop 39 (take 44 createStandardDeck))"
    using c unfolding d by (simp add: length_createStandardDeck)
  have p: "pot s' = 102 / 5"
    using pt unfolding sp l by (simp add: pot_total_def)
  show ?thesis
    using Game_ctor_uneven_game n t f c' l sp p unfolding s_def s'_def by simp
qed

text \<open>
  Claim C1, as stated, fails for \<^verbatim>\<open>GameState::getReturns\<close> as soon as a rake is configured: the
  function never reads the rake and jackpot parameters. At the 10c/25c parameters (rake 0.04,
  jackpot fee 0.04, payout 0.01 percent of the pot) the fold-around hand returns
  \<open>[-0.4, 0.4, 0, 0]\<close>, which sums to zero and not to \<open>-(0.04 + 0.04 - 0.00014)\<close>.
\<close>

theorem rake_never_charged_counterexample:
  "Game_ctor (2 / 5) 1 rake_parameters [] = Inr (blinds_game rake_parameters)
   \<and> play (GameState_ctor (blinds_game rake_parameters) createStandardDeck)
        [DEAL, FOLD, FOLD, FOLD]
       = Returned (after_three_folds rake_parameters createStandardDeck)
   \<and> isTerminal (after_three_folds rake_parameters createStandardDeck)
   \<and> getReturns (after_three_folds rake_parameters createStandardDeck)
       = Inr ([- (2 / 5), 2 / 5, 0, 0], False)
   \<and> sum_list [- (2 / 5), 2 / 5, 0, 0 :: real] = 0
   \<and> rake_per_hand (gameParams (game (after_three_folds rake_parameters createStandardDeck)))
     + jackpot_fee_per_hand (gameParams (game (after_three_folds rake_parameters createStandardDeck)))
     - jackpot_payout_percentage (gameParams (game (after_three_folds rake_parameters createStandardDeck)))
       * pot (after_three_folds rake_parameters createStandardDeck)
     = 3993 / 50000"
proof -
  have 1: "play (GameState_ctor (blinds_game rake_parameters) createStandardDeck)
        [DEAL, FOLD, FOLD, FOLD]
       = Returned (after_three_folds rake_parameters createStandardDeck)"
    using length_createStandardDeck by (rule play_three_folds)
  have 2: "getReturns (after_three_folds rake_parameters createStandardDeck)
       = Inr ([- (2 / 5), 2 / 5, 0, 0], False)"
    using length_createStandardDeck by (rule returns_three_folds)
  have 3: "isTerminal (after_three_folds rake_parameters createStandardDeck)"
    by (simp add: isTerminal_def after_three_folds_def)
  have 4: "rake_per_hand (gameParams (game (after_three_folds rake_parameters createStandardDeck)))
     + jackpot_fee_per_hand (gameParams (game (after_three_folds rake_parameters createStandardDeck)))
     - jackpot_payout_percentage (gameParams (game (after_three_folds rake_parameters createStandardDeck)))
       * pot (after_three_folds rake_parameters createStandardDeck)
     = 3993 / 50000"
    by (simp add: after_three_folds_def blinds_game_def rake_parameters_def)
  show ?thesis using Game_ctor_rake_parameters 1 2 3 4 by simp
qed

text \<open>
  Claim C1, amended. For every game the constructor accepts (any rake and jackpot parameters)
  and every terminal state a hand can reach, \<^verbatim>\<open>getReturns\<close> returns normally, with four
  entries whose sum is the total of the side pots minus the pot: no rake, fee or payout enters
  it. The zero-sum warning is printed exactly when that sum is further than \<open>1e-6\<close> from zero,
  and the returns are returned all the same. When every starting stack is at least the big
  blind, the sum is exactly zero and no warning is printed.
\<close>

theorem returns_sum_to_side_pots_minus_pot:
  assumes "Game_ctor sb bb params stacksBB = Inr g" and "reachable g s" and "isTerminal s"
  shows "\<exists>rets warned. getReturns s = Inr (rets, warned) \<and> length rets = 4
           \<and> sum_list rets = pot_total (sidePots s) - pot s
           \<and> (warned \<longleftrightarrow> \<bar>sum_list rets\<bar> > 1 / 10 ^ 6)
           \<and> ((\<forall>i<4. bigBlind g \<le> gameStacks g ! i) \<longrightarrow> sum_list rets = 0 \<and> \<not> warned)"
proof -
  have vg: "valid_game g" using assms(1) by (rule Game_ctor_valid)
  have inv: "table_inv g s" using vg assms(2) by (rule reachable_table_inv)
  have over: "gameOver s" using assms(3) by (simp add: isTerminal_def)
  obtain rets where r: "getReturns s = Inr (rets, \<bar>pot s - pot_total (sidePots s)\<bar> > 1 / 10 ^ 6)"
      "length rets = 4" "sum_list rets = pot_total (sidePots s) - pot s"
    using getReturns_terminal [OF inv over] by blast
  have w: "(\<bar>pot s - pot_total (sidePots s)\<bar> > 1 / 10 ^ 6) \<longleftrightarrow> \<bar>sum_list rets\<bar> > 1 / 10 ^ 6"
    unfolding r(3) by (simp add: abs_minus_commute)
  have z: "sum_list rets = 0 \<and> \<not> (\<bar>pot s - pot_total (sidePots s)\<bar> > 1 / 10 ^ 6)"
    if "\<forall>i<4. bigBlind g \<le> gameStacks g ! i"
    using terminal_side_pots_total [OF vg that assms(2) over] r(3) by simp
  show ?thesis using r w z by blast
qed

theorem returns_sum_to_side_pots_minus_pot_witness:
  "Game_ctor (2 / 5) 1 no_parameters [8, 8, 1 / 2, 8] = Inr short_game
   \<and> (let s = state_after (play (GameState_ctor short_game createStandardDeck)
                  [DEAL, ALL_IN, FOLD, FOLD, FOLD])
      in isTerminal s \<and> pot s = 19 / 10 \<and> pot_total (sidePots s) = 7 / 5
         \<and> (\<exists>rets. getReturns s = Inr (rets, True) \<and> sum_list rets = - (1 / 2)))
   \<and> Game_ctor (2 / 5) 1 rake_parameters [] = Inr (blinds_game rake_parameters)
   \<and> isTerminal (after_three_folds rake_parameters createStandardDeck)
   \<and> (\<exists>rets. getReturns (after_three_folds rake_parameters createStandardDeck) = Inr (rets, False)
         \<and> sum_list rets = 0)"
proof -
  let ?t = "after_three_folds rake_parameters createStandardDeck"
  have tt: "isTerminal ?t" by (simp add: isTerminal_def after_three_folds_def)
  have big: "\<forall>i<4. bigBlind (blinds_game rake_parameters) \<le> gameStacks (blinds_game rake_parameters) ! i"
    by (simp add: blinds_game_def all_lt4)
  obtain rets' warned' where g': "getReturns ?t = Inr (rets', warned')"
      "(\<forall>i<4. bigBlind (blinds_game rake_parameters) \<le> gameStacks (blinds_game rake_parameters) ! i)
         \<longrightarrow> sum_list rets' = 0 \<and> \<not> warned'"
    using returns_sum_to_side_pots_minus_pot [OF Game_ctor_rake_parameters
        reachable_after_three_folds [OF shuffled_standard] tt] by blast
  have z: "\<exists>rets. getReturns ?t = Inr (rets, False) \<and> sum_list rets = 0"
    using g' big by auto
  define s where "s = state_after (play (GameState_ctor short_game createStandardDeck)
                  [DEAL, ALL_IN, FOLD, FOLD, FOLD])"
  have r: "reachable short_game s"
    unfolding s_def using reachable.initial [OF shuffled_standard] by (rule reachable_play)
  have f: "gameOver s = True" "pot s = 19 / 10" "sidePots s = [(6 / 5, [2]), (1 / 5, [2])]"
    unfolding s_def by code_simp+
  have t: "isTerminal s" using f(1) by (simp add: isTerminal_def)
  have p: "pot_total (sidePots s) = 7 / 5" unfolding f(3) by (simp add: pot_total_def)
  obtain rets warned where g: "getReturns s = Inr (rets, warned)"
      "sum_list rets = pot_total (sidePots s) - pot s"
      "warned \<longleftrightarrow> \<bar>sum_list rets\<bar> > 1 / 10 ^ 6"
    using returns_sum_to_side_pots_minus_pot [OF Game_ctor_short_game r t] by blast
  have sm: "sum_list rets = - (1 / 2)" using g(2) p f(2) by simp
  have "warned" using g(3) sm by simp
  then have "\<exists>rets. getReturns s = Inr (rets, True) \<and> sum_list rets = - (1 / 2)"
    using g(1) sm by auto
  then show ?thesis
    using Game_ctor_short_game t f(2) p Game_ctor_rake_parameters tt z
    unfolding s_def [symmetric] Let_def by simp
qed

text \<open>
  Claim C4. \<^verbatim>\<open>calculateSidePots\<close> loses chips when a seat that folded has put in more than
  every seat still in the hand. With blinds 0.4 and 1 and starting stacks of 8, 8, 0.5 and 8
  big blinds, seat 2 goes all-in for 0.5 and seats 3, 0 and 1 fold: the pot is 1.9, the side
  pots are 1.2 and 0.2 (total 1.4), the half big blind that seat 1 posted above seat 2's stack
  is in no side pot, and \<^verbatim>\<open>getReturns\<close> prints its zero-sum warning and returns
  \<open>[-0.4, -1, 0.9, 0]\<close>.
\<close>

theorem side_pots_lose_uncalled_blind:
  "Game_ctor (2 / 5) 1 no_parameters [8, 8, 1 / 2, 8] = Inr short_game
   \<and> (case play (GameState_ctor short_game createStandardDeck)
             [DEAL, ALL_IN, FOLD, FOLD, FOLD] of
        Returned s \<Rightarrow>
          isTerminal s \<and> pot s = 19 / 10
          \<and> sidePots s = [(6 / 5, [2]), (1 / 5, [2])]
          \<and> pot_total (sidePots s) = 7 / 5
          \<and> getReturns s = Inr ([- (2 / 5), - 1, 9 / 10, 0], True)
      | Thrown e s \<Rightarrow> False)"
proof -
  have "case play (GameState_ctor short_game createStandardDeck)
             [DEAL, ALL_IN, FOLD, FOLD, FOLD] of
        Returned s \<Rightarrow>
          isTerminal s \<and> pot s = 19 / 10
          \<and> sidePots s = [(6 / 5, [2]), (1 / 5, [2])]
          \<and> pot_total (sidePots s) = 7 / 5
          \<and> getReturns s = Inr ([- (2 / 5), - 1, 9 / 10, 0], True)
      | Thrown e s \<Rightarrow> False"
    by code_simp
  then show ?thesis using Game_ctor_short_game by simp
qed


section \<open>Copies of a game state\<close>

text \<open>
  A \<^verbatim>\<open>GameState\<close> object holds every member by value except two: \<^verbatim>\<open>game_\<close>, a pointer to a
  \<^verbatim>\<open>const Game\<close> that no member function writes through (the record \<open>Game\<close> stands for what it
  points to), and \<^verbatim>\<open>deck_\<close>, a \<^verbatim>\<open>std::unique_ptr<Deck>\<close>. To state what a copy shares with its
  original, the \<^verbatim>\<open>Deck\<close> objects are kept in a free store: a list of decks, the address of a
  deck being its index, and \<^verbatim>\<open>std::make_unique<Deck>\<close> taking the next index. Of a \<^verbatim>\<open>Deck\<close>
  only \<^verbatim>\<open>cards_\<close> is kept: \<^verbatim>\<open>applyAction\<close> never draws from its random generator.
\<close>

type_synonym free_store = "Card list list"

record GameStateObject =
  obj_game :: Game
  obj_gameOver :: bool
  obj_nextPlayer :: nat
  obj_pot :: real
  obj_initialStacks :: "real list"
  obj_playerStacks :: "real list"
  obj_folded :: "bool list"
  obj_allInPlayers :: "nat set"
  obj_deck :: "nat option"
  obj_holeCards :: "Card list"
  obj_communityCards :: "Card list"
  obj_sidePots :: "(real \<times> nat list) list"

definition make_unique_Deck :: "free_store \<Rightarrow> Card list \<Rightarrow> free_store \<times> nat" where
  "make_unique_Deck h d = (h @ [d], length h)"

text \<open>
  What can be observed of an object: its members, and the deck its pointer leads to. \<open>None\<close>
  when \<^verbatim>\<open>deck_\<close> is null or leads nowhere (an object that was moved from).
\<close>

definition observe :: "free_store \<Rightarrow> GameStateObject \<Rightarrow> GameState option" where
  "observe h ob =
     (case obj_deck ob of
        None \<Rightarrow> None
      | Some p \<Rightarrow>
          if p < length h
          then Some \<lparr>game = obj_game ob, gameOver = obj_gameOver ob,
                     nextPlayer = obj_nextPlayer ob, pot = obj_pot ob,
                     initialStacks = obj_initialStacks ob, playerStacks = obj_playerStacks ob,
                     folded = obj_folded ob, allInPlayers = obj_allInPlayers ob, deck = h ! p,
                     holeCards = obj_holeCards ob, communityCards = obj_communityCards ob,
                     sidePots = obj_sidePots ob\<rparr>
          else None)"

text \<open>The members of an object whose deck is at address \<open>p\<close>, and the store with that deck.\<close>

definition members_at :: "nat \<Rightarrow> GameState \<Rightarrow> GameStateObject" where
  "members_at p s =
     \<lparr>obj_game = game s, obj_gameOver = gameOver s, obj_nextPlayer = nextPlayer s,
      obj_pot = pot s, obj_initialStacks = initialStacks s, obj_playerStacks = playerStacks s,
      obj_folded = folded s, obj_allInPlayers = allInPlayers s, obj_deck = Some p,
      obj_holeCards = holeCards s, obj_communityCards = communityCards s,
      obj_sidePots = sidePots s\<rparr>"

definition written :: "free_store \<Rightarrow> nat \<Rightarrow> GameState \<Rightarrow> free_store \<times> GameStateObject" where
  "written h p s = (h[p := deck s], members_at p s)"

text \<open>\<^verbatim>\<open>GameState::GameState(const Game*)\<close>: the deck is a new object of the free store.\<close>

definition GameState_new :: "free_store \<Rightarrow> Game \<Rightarrow> Card list \<Rightarrow> free_store \<times> GameStateObject" where
  "GameState_new h g d = (let (h', p) = make_unique_Deck h d in (h', members_at p (GameState_ctor g d)))"

text \<open>
  \<^verbatim>\<open>GameState::GameState(const GameState& other)\<close>: every member copied by value, and
  \<^verbatim>\<open>deck_(other.deck_ ? std::make_unique<Deck>(*other.deck_) : nullptr)\<close>. \<open>None\<close> when
  \<^verbatim>\<open>other.deck_\<close> leads nowhere.
\<close>

definition copy_ctor :: "free_store \<Rightarrow> GameStateObject \<Rightarrow> (free_store \<times> GameStateObject) option" where
  "copy_ctor h other =
     (case obj_deck other of
        None \<Rightarrow> Some (h, other)
      | Some p \<Rightarrow>
          if p < length h
          then (let (h', q) = make_unique_Deck h (h ! p) in Some (h', other\<lparr>obj_deck := Some q\<rparr>))
          else None)"

text \<open>\<^verbatim>\<open>GameState clone() const { return *this; }\<close>\<close>

definition clone :: "free_store \<Rightarrow> GameStateObject \<Rightarrow> (free_store \<times> GameStateObject) option" where
  "clone h this = copy_ctor h this"

text \<open>
  \<^verbatim>\<open>applyAction\<close> called on an object: what it reads and writes of \<^verbatim>\<open>*deck_\<close> goes to the
  store at the object's own deck address.
\<close>

definition applyAction_on ::
  "free_store \<Rightarrow> GameStateObject \<Rightarrow> Action \<Rightarrow> (free_store \<times> GameStateObject) outcome option" where
  "applyAction_on h ob a =
     (case obj_deck ob of
        None \<Rightarrow> None
      | Some p \<Rightarrow>
          (case observe h ob of
             None \<Rightarrow> None
           | Some s \<Rightarrow>
               (case applyAction s a of
                  Returned s' \<Rightarrow> Some (Returned (written h p s'))
                | Thrown e s' \<Rightarrow> Some (Thrown e (written h p s')))))"

text \<open>A copy that kept the pointer instead (what the copy constructor does not do).\<close>

definition aliasing_copy :: "free_store \<Rightarrow> GameStateObject \<Rightarrow> free_store \<times> GameStateObject" where
  "aliasing_copy h other = (h, other)"

lemma observe_members_at:
  "p < length h \<Longrightarrow> observe (h[p := deck s]) (members_at p s) = Some s"
  by (simp add: observe_def members_at_def)

lemma observe_deck:
  "observe h ob = Some s \<Longrightarrow> \<exists>p. obj_deck ob = Some p \<and> p < length h \<and> deck s = h ! p"
  by (auto simp: observe_def split: option.splits if_splits)

lemma observe_other_address:
  assumes "observe h ob = Some s" "obj_deck ob = Some p" "q \<noteq> p"
  shows "observe (h[q := d]) ob = Some s"
  using assms by (auto simp: observe_def split: if_splits)

lemma observe_append:
  assumes "observe h ob = Some s"
  shows "observe (h @ [d]) ob = Some s"
  using assms by (auto simp: observe_def nth_append split: option.splits if_splits)

lemma clone_observe:
  assumes "observe h ob = Some s"
  shows "\<exists>p. obj_deck ob = Some p \<and> p < length h
           \<and> clone h ob = Some (h @ [h ! p], ob\<lparr>obj_deck := Some (length h)\<rparr>)
           \<and> observe (h @ [h ! p]) (ob\<lparr>obj_deck := Some (length h)\<rparr>) = Some s"
proof -
  obtain p where p: "obj_deck ob = Some p" "p < length h" "deck s = h ! p"
    using observe_deck [OF assms] by blast
  have c: "clone h ob = Some (h @ [h ! p], ob\<lparr>obj_deck := Some (length h)\<rparr>)"
    using p by (simp add: clone_def copy_ctor_def make_unique_Deck_def)
  have "observe (h @ [h ! p]) (ob\<lparr>obj_deck := Some (length h)\<rparr>) = Some s"
    using assms p by (auto simp: observe_def nth_append split: if_splits)
  then show ?thesis using p c by blast
qed

text \<open>
  Claim C9. Let an object (with its deck in the store) show the state \<open>s\<close>. Its clone shows
  the same state and has a deck of its own. After \<^verbatim>\<open>applyAction\<close> on the clone, for any
  action (legal or not, returning or throwing), the clone shows the state the action leads to
  from \<open>s\<close>, and the original still shows \<open>s\<close>: every member and its deck are as before.
\<close>

theorem clone_leaves_original_unchanged:
  assumes "observe h ob = Some s"
  shows "\<exists>h1 c r. clone h ob = Some (h1, c)
           \<and> observe h1 c = Some s \<and> observe h1 ob = Some s \<and> obj_deck c \<noteq> obj_deck ob
           \<and> applyAction_on h1 c a = Some r
           \<and> thrown r = thrown (applyAction s a)
           \<and> observe (fst (state_after r)) (snd (state_after r))
               = Some (state_after (applyAction s a))
           \<and> observe (fst (state_after r)) ob = Some s"
proof -
  obtain p where p: "obj_deck ob = Some p" "p < length h"
      and c: "clone h ob = Some (h @ [h ! p], ob\<lparr>obj_deck := Some (length h)\<rparr>)"
      and oc: "observe (h @ [h ! p]) (ob\<lparr>obj_deck := Some (length h)\<rparr>) = Some s"
    using clone_observe [OF assms] by blast
  define h1 where "h1 = h @ [h ! p]"
  define cl where "cl = ob\<lparr>obj_deck := Some (length h)\<rparr>"
  have oo: "observe h1 ob = Some s" unfolding h1_def using assms by (rule observe_append)
  have ne: "obj_deck cl \<noteq> obj_deck ob" using p by (simp add: cl_def)
  have q: "length h < length h1" by (simp add: h1_def)
  define s' where "s' = state_after (applyAction s a)"
  define r where "r = (case applyAction s a of
                  Returned t \<Rightarrow> Returned (written h1 (length h) t)
                | Thrown e t \<Rightarrow> Thrown e (written h1 (length h) t))"
  have ap: "applyAction_on h1 cl a = Some r"
    using oc by (simp add: applyAction_on_def cl_def h1_def r_def split: outcome.splits)
  have sa: "state_after r = written h1 (length h) s'" and th: "thrown r = thrown (applyAction s a)"
    by (simp_all add: r_def s'_def split: outcome.splits)
  have o1: "observe (fst (state_after r)) (snd (state_after r)) = Some s'"
    unfolding sa written_def using q by (simp add: observe_members_at)
  have o2: "observe (fst (state_after r)) ob = Some s"
    unfolding sa written_def using oo p by (simp add: observe_other_address)
  show ?thesis
    using c oc oo ne ap th o1 o2 unfolding h1_def [symmetric] cl_def [symmetric] s'_def
    by blast
qed


definition dealt_state :: "GameParameters \<Rightarrow> Card list \<Rightarrow> GameState" where
  "dealt_state params d =
     \<lparr>game = blinds_game params, gameOver = False, nextPlayer = 2, pot = 7 / 5,
      initialStacks = [8, 8, 8, 8], playerStacks = [38 / 5, 7, 8, 8],
      folded = [False, False, False, False], allInPlayers = {}, deck = take 44 d,
      holeCards = rev (drop 44 d), communityCards = [], sidePots = []\<rparr>"

lemma deal_from_initial:
  assumes "length d = 52"
  shows "applyAction (GameState_ctor (blinds_game params) d) DEAL = Returned (dealt_state params d)"
proof -
  have d8: "dealCards d 8 = Inr (rev (drop 44 d), take 44 d)"
    using dealCards_eq [of 8 d] assms by simp
  show ?thesis
    by (simp add: GameState_ctor_def blinds_game_def dealt_state_def applyAction_def
        isChanceNode_def dealHoleCards_def NUM_PLAYERS_def HOLE_CARDS_PER_PLAYER_def d8
        Let_def upt_0_4 replicate_4)
qed

lemma obj_deck_members_at: "obj_deck (members_at p s) = Some p"
  by (simp add: members_at_def)

lemma deck_dealt_state: "deck (dealt_state params d) = take 44 d"
  by (simp add: dealt_state_def)

lemma observe_members:
  "p < length h \<Longrightarrow> h ! p = deck s \<Longrightarrow> observe h (members_at p s) = Some s"
  by (simp add: observe_def members_at_def)

lemma deck_GameState_ctor: "deck (GameState_ctor g d) = d"
  by (simp add: GameState_ctor_def Let_def)

lemma GameState_new_empty:
  "GameState_new [] g d = ([d], members_at 0 (GameState_ctor g d))"
  by (simp add: GameState_new_def make_unique_Deck_def)

lemma observe_new: "observe [d] (members_at 0 (GameState_ctor g d)) = Some (GameState_ctor g d)"
  by (simp add: observe_def members_at_def GameState_ctor_def Let_def)

theorem clone_leaves_original_unchanged_witness:
  "GameState_new [] (blinds_game no_parameters) createStandardDeck
     = ([createStandardDeck],
        members_at 0 (GameState_ctor (blinds_game no_parameters) createStandardDeck))
   \<and> clone [createStandardDeck]
        (members_at 0 (GameState_ctor (blinds_game no_parameters) createStandardDeck))
     = Some ([createStandardDeck, createStandardDeck],
             members_at 1 (GameState_ctor (blinds_game no_parameters) createStandardDeck))
   \<and> applyAction_on [createStandardDeck, createStandardDeck]
        (members_at 1 (GameState_ctor (blinds_game no_parameters) createStandardDeck)) DEAL
     = Some (Returned ([createStandardDeck, take 44 createStandardDeck],
                       members_at 1 (dealt_state no_parameters createStandardDeck)))
   \<and> observe [createStandardDeck, take 44 createStandardDeck]
        (members_at 0 (GameState_ctor (blinds_game no_parameters) createStandardDeck))
     = Some (GameState_ctor (blinds_game no_parameters) createStandardDeck)
   \<and> observe [createStandardDeck, take 44 createStandardDeck]
        (members_at 1 (dealt_state no_parameters createStandardDeck))
     = Some (dealt_state no_parameters createStandardDeck)"
proof -
  let ?d = createStandardDeck
  let ?s = "GameState_ctor (blinds_game no_parameters) ?d"
  let ?ob = "members_at 0 ?s"
  let ?t = "dealt_state no_parameters ?d"
  have c: "clone [?d] ?ob = Some ([?d, ?d], members_at 1 ?s)"
    by (simp add: clone_def copy_ctor_def make_unique_Deck_def members_at_def)
  have oc: "observe [?d, ?d] (members_at 1 ?s) = Some ?s"
    by (simp add: observe_def members_at_def GameState_ctor_def Let_def)
  have ap: "applyAction_on [?d, ?d] (members_at 1 ?s) DEAL
              = Some (Returned ([?d, take 44 ?d], members_at 1 ?t))"
    by (simp add: applyAction_on_def observe_members deck_GameState_ctor
        deal_from_initial [OF length_createStandardDeck]
        obj_deck_members_at written_def deck_dealt_state)
  obtain h1 cl r where t: "clone [?d] ?ob = Some (h1, cl)" "applyAction_on h1 cl DEAL = Some r"
      "observe (fst (state_after r)) (snd (state_after r)) = Some (state_after (applyAction ?s DEAL))"
      "observe (fst (state_after r)) ?ob = Some ?s"
    using clone_leaves_original_unchanged [OF observe_new [of ?d "blinds_game no_parameters"], of DEAL]
    by blast
  have e: "h1 = [?d, ?d]" "cl = members_at 1 ?s" using t(1) c by simp_all
  have "Some r = Some (Returned ([?d, take 44 ?d], members_at 1 ?t))"
    using t(2) ap unfolding e by simp
  then have r: "state_after r = ([?d, take 44 ?d], members_at 1 ?t)" by auto
  have o1: "observe [?d, take 44 ?d] ?ob = Some ?s" using t(4) unfolding r by simp
  have o2: "observe [?d, take 44 ?d] (members_at 1 ?t) = Some ?t"
    using t(3) unfolding r deal_from_initial [OF length_createStandardDeck] by simp
  show ?thesis using GameState_new_empty c ap o1 o2 by simp
qed

text \<open>
  With a copy that kept the deck pointer, the original would see the cards the copy deals:
  after DEAL on such a copy the original's deck has 44 cards and not 52.
\<close>

lemma aliasing_copy_changes_original:
  "aliasing_copy [createStandardDeck]
        (members_at 0 (GameState_ctor (blinds_game no_parameters) createStandardDeck))
     = ([createStandardDeck],
        members_at 0 (GameState_ctor (blinds_game no_parameters) createStandardDeck))
   \<and> applyAction_on [createStandardDeck]
        (members_at 0 (GameState_ctor (blinds_game no_parameters) createStandardDeck)) DEAL
     = Some (Returned ([take 44 createStandardDeck],
                       members_at 0 (dealt_state no_parameters createStandardDeck)))
   \<and> observe [take 44 createStandardDeck]
        (members_at 0 (GameState_ctor (blinds_game no_parameters) createStandardDeck))
     = Some ((GameState_ctor (blinds_game no_parameters) createStandardDeck)
               \<lparr>deck := take 44 createStandardDeck\<rparr>)
   \<and> length (deck (GameState_ctor (blinds_game no_parameters) createStandardDeck)) = 52"
proof -
  let ?d = createStandardDeck
  let ?s = "GameState_ctor (blinds_game no_parameters) ?d"
  have ap: "applyAction_on [?d] (members_at 0 ?s) DEAL
              = Some (Returned ([take 44 ?d], members_at 0 (dealt_state no_parameters ?d)))"
    by (simp add: applyAction_on_def observe_new deal_from_initial [OF length_createStandardDeck]
        obj_deck_members_at written_def deck_dealt_state)
  have ob: "observe [take 44 ?d] (members_at 0 ?s) = Some (?s\<lparr>deck := take 44 ?d\<rparr>)"
    by (simp add: observe_def members_at_def GameState_ctor_def Let_def)
  show ?thesis
    using ap ob by (simp add: aliasing_copy_def GameState_ctor_def Let_def length_createStandardDeck)
qed

end
